theory Spec2Isabelle
  imports Main "HOL-Library.Sublist" "HOL-Library.Word"
begin

section \<open>Python values\<close>

text \<open>
  A Python \<^verbatim>\<open>str\<close> is a sequence of Unicode code points, and \<^verbatim>\<open>len\<close> counts
  code points. A code point is a natural number here; a literal of the source is written
  \<open>lit ''...''\<close>.
\<close>

type_synonym pystr = "nat list"

definition lit :: "string \<Rightarrow> pystr" where
  "lit s = map of_char s"

text \<open>
  The values that \<^verbatim>\<open>json.load\<close> and \<^verbatim>\<open>json.loads\<close> build, and that the
  dictionaries of the pipeline hold. A float is kept as its 64 bits. A \<^verbatim>\<open>dict\<close> is an
  association list in insertion order; Python keeps its keys distinct.
\<close>

datatype pyval =
    PNone
  | PBool bool
  | PInt int
  | PFloat "64 word"
  | PStr pystr
  | PList "pyval list"
  | PDict "(pystr \<times> pyval) list"

text \<open>The exceptions of the source that are not caught where they are raised.\<close>

datatype py_error =
    AttributeError | TypeError | ImportError | OtherError
  | UnicodeEncodeError | JSONDecodeError | OSError

text \<open>\<^verbatim>\<open>bool(v)\<close>, as \<^verbatim>\<open>not v\<close> and \<^verbatim>\<open>if v\<close> use it.\<close>

fun truthy :: "pyval \<Rightarrow> bool" where
  "truthy PNone = False"
| "truthy (PBool b) = b"
| "truthy (PInt i) = (i \<noteq> 0)"
| "truthy (PFloat w) = (take_bit 63 w \<noteq> 0)"
| "truthy (PStr s) = (s \<noteq> [])"
| "truthy (PList xs) = (xs \<noteq> [])"
| "truthy (PDict kvs) = (kvs \<noteq> [])"

text \<open>\<^verbatim>\<open>d.get(key)\<close> and \<^verbatim>\<open>d.get(key, default)\<close> on a dict.\<close>

definition dict_get :: "(pystr \<times> pyval) list \<Rightarrow> pystr \<Rightarrow> pyval" where
  "dict_get d k = (case map_of d k of None \<Rightarrow> PNone | Some v \<Rightarrow> v)"

definition dict_get_default :: "(pystr \<times> pyval) list \<Rightarrow> pystr \<Rightarrow> pyval \<Rightarrow> pyval" where
  "dict_get_default d k dflt = (case map_of d k of None \<Rightarrow> dflt | Some v \<Rightarrow> v)"

section \<open>Strings: \<^verbatim>\<open>str.strip\<close>, \<^verbatim>\<open>in\<close>, \<^verbatim>\<open>str(int)\<close>\<close>

text \<open>The code points for which \<^verbatim>\<open>str.isspace\<close> holds; \<^verbatim>\<open>strip()\<close> removes them.\<close>

definition is_space :: "nat \<Rightarrow> bool" where
  "is_space c = ((9 \<le> c \<and> c \<le> 13) \<or> (28 \<le> c \<and> c \<le> 32) \<or> c = 133 \<or> c = 160
     \<or> c = 5760 \<or> (8192 \<le> c \<and> c \<le> 8202) \<or> c = 8232 \<or> c = 8233 \<or> c = 8239
     \<or> c = 8287 \<or> c = 12288)"

definition lstrip :: "pystr \<Rightarrow> pystr" where
  "lstrip s = dropWhile is_space s"

definition rstrip :: "pystr \<Rightarrow> pystr" where
  "rstrip s = rev (dropWhile is_space (rev s))"

definition strip :: "pystr \<Rightarrow> pystr" where
  "strip s = lstrip (rstrip s)"

text \<open>\<^verbatim>\<open>a in b\<close> on two strings: \<open>a\<close> occurs in \<open>b\<close> as a contiguous run.\<close>

definition str_in :: "pystr \<Rightarrow> pystr \<Rightarrow> bool" where
  "str_in a b = sublist a b"

text \<open>\<^verbatim>\<open>str(n)\<close> for an \<^verbatim>\<open>int\<close> that is not negative: its decimal digits.\<close>

fun str_nat :: "nat \<Rightarrow> pystr" where
  "str_nat n = (if n < 10 then [48 + n] else str_nat (n div 10) @ [48 + n mod 10])"

declare str_nat.simps [simp del]

text \<open>\<^verbatim>\<open>s.endswith(suffix)\<close>\<close>

definition endswith :: "pystr \<Rightarrow> pystr \<Rightarrow> bool" where
  "endswith s sfx = suffix sfx s"

text \<open>\<^verbatim>\<open>s.rfind(c)\<close> for a single code point: its last index, or -1.\<close>

definition rfind :: "pystr \<Rightarrow> nat \<Rightarrow> int" where
  "rfind s c =
     (if c \<in> set s then int (length s - 1 - length (takeWhile (\<lambda>x. x \<noteq> c) (rev s)))
      else - 1)"

text \<open>
  \<^verbatim>\<open>os.path.splitext(p)[0]\<close> with \<^verbatim>\<open>/\<close> as the separator: the last dot of the
  last path component starts the extension, unless only dots precede it there.
\<close>

definition splitext_root :: "pystr \<Rightarrow> pystr" where
  "splitext_root p =
     (let sepIndex = rfind p 47; dotIndex = rfind p 46
      in if dotIndex > sepIndex
            \<and> list_ex (\<lambda>k. p ! k \<noteq> 46) [nat (sepIndex + 1)..<nat dotIndex]
         then take (nat dotIndex) p else p)"

section \<open>Regular expressions of the \<^verbatim>\<open>re\<close> module\<close>

text \<open>
  The fragment the source uses: a literal code point, \<^verbatim>\<open>.\<close> (any code point but the
  newline, as no flag is given), concatenation, alternation and \<^verbatim>\<open>*\<close>. \<open>AnyCp\<close> is
  not written in a pattern; it stands for the text that \<^verbatim>\<open>re.search\<close> skips.
\<close>

datatype rexp =
    Nothing
  | Eps
  | Cp nat
  | Dot
  | AnyCp
  | Alt rexp rexp
  | Seq rexp rexp
  | Star rexp

fun nullable :: "rexp \<Rightarrow> bool" where
  "nullable Nothing = False"
| "nullable Eps = True"
| "nullable (Cp c) = False"
| "nullable Dot = False"
| "nullable AnyCp = False"
| "nullable (Alt r s) = (nullable r \<or> nullable s)"
| "nullable (Seq r s) = (nullable r \<and> nullable s)"
| "nullable (Star r) = True"

fun deriv :: "nat \<Rightarrow> rexp \<Rightarrow> rexp" where
  "deriv c Nothing = Nothing"
| "deriv c Eps = Nothing"
| "deriv c (Cp d) = (if c = d then Eps else Nothing)"
| "deriv c Dot = (if c = 10 then Nothing else Eps)"
| "deriv c AnyCp = Eps"
| "deriv c (Alt r s) = Alt (deriv c r) (deriv c s)"
| "deriv c (Seq r s) =
     (if nullable r then Alt (Seq (deriv c r) s) (deriv c s) else Seq (deriv c r) s)"
| "deriv c (Star r) = Seq (deriv c r) (Star r)"

text \<open>The whole of \<open>s\<close> is matched by \<open>r\<close>.\<close>

fun fullmatch :: "rexp \<Rightarrow> pystr \<Rightarrow> bool" where
  "fullmatch r [] = nullable r"
| "fullmatch r (c # cs) = fullmatch (deriv c r) cs"

text \<open>A literal run of code points.\<close>

fun lits :: "pystr \<Rightarrow> rexp" where
  "lits [] = Eps"
| "lits (c # cs) = Seq (Cp c) (lits cs)"

text \<open>\<^verbatim>\<open>re.search(r, s)\<close> with no anchor in \<open>r\<close>: some run of \<open>s\<close> is matched.\<close>

definition re_search :: "rexp \<Rightarrow> pystr \<Rightarrow> bool" where
  "re_search r s = fullmatch (Seq (Star AnyCp) (Seq r (Star AnyCp))) s"

text \<open>
  \<^verbatim>\<open>re.match('^r$', s)\<close>: \<^verbatim>\<open>^\<close> is the start of \<open>s\<close>, and \<^verbatim>\<open>$\<close> is its end
  or the place before a newline that ends it.
\<close>

definition re_match_anchored :: "rexp \<Rightarrow> pystr \<Rightarrow> bool" where
  "re_match_anchored r s = fullmatch (Seq r (Alt Eps (Cp 10))) s"

section \<open>The indexer: \<^verbatim>\<open>index.py\<close>\<close>

definition BATCH_SIZE :: nat where
  "BATCH_SIZE = 50"

text \<open>\<^verbatim>\<open>r'\[.*\]|\{.*\}'\<close>\<close>

definition placeholder_pattern :: rexp where
  "placeholder_pattern =
     Alt (Seq (Cp 91) (Seq (Star Dot) (Cp 93))) (Seq (Cp 123) (Seq (Star Dot) (Cp 125)))"

text \<open>\<^verbatim>\<open>r'^\(Page: .*\)$'\<close>, between its anchors.\<close>

definition page_pattern :: rexp where
  "page_pattern = Seq (lits (lit ''(Page: '')) (Seq (Star Dot) (Cp 41))"

text \<open>
  \<^verbatim>\<open>is_junk(text)\<close>. Its argument is what \<^verbatim>\<open>chunk.get("text")\<close> returned, any
  value.
\<close>

fun is_junk :: "pyval \<Rightarrow> bool" where
  "is_junk (PStr text) =
     (if text = [] then True
      else if length (strip text) < 10 then True
      else if re_search placeholder_pattern text then True
      else if re_match_anchored page_pattern (strip text) then True
      else False)"
| "is_junk v = True"

text \<open>One record handed to \<^verbatim>\<open>chroma_collection.add\<close>: its id, the text that is embedded, its metadata.\<close>

record vector_record =
  rec_id :: pystr
  rec_text :: pyval
  rec_metadata :: "(pystr \<times> pyval) list"

text \<open>What the indexer prints.\<close>

datatype index_msg =
    MsgDirMissing
  | MsgFound nat
  | MsgProcessing pystr
  | MsgReadError pystr
  | MsgNoContent pystr
  | MsgRemoved nat
  | MsgNoValid pystr
  | MsgCreating nat
  | MsgAdded nat
  | MsgAddError
  | MsgComplete
  | MsgSkipped nat
  | MsgTotal nat

text \<open>
  The state of one run. \<open>attempts\<close> lists, in order, every batch for which embedding and
  insertion were tried, with whether they succeeded; the vector store holds the batches
  that did.
\<close>

record index_state =
  total_vectors_added :: nat
  skipped_files_count :: nat
  attempts :: "(vector_record list \<times> bool) list"
  console :: "index_msg list"

definition inserted :: "index_state \<Rightarrow> vector_record list" where
  "inserted st = concat (map fst (filter snd (attempts st)))"

definition say :: "index_msg \<Rightarrow> index_state \<Rightarrow> index_state" where
  "say m st = st\<lparr>console := console st @ [m]\<rparr>"

text \<open>The metadata of one chunk before and after the sanitization loop.\<close>

definition metadata_raw :: "(pystr \<times> pyval) list \<Rightarrow> (pystr \<times> pyval) list" where
  "metadata_raw chunk =
     [(lit ''document_name'', dict_get chunk (lit ''document_name'')),
      (lit ''page_number'', dict_get chunk (lit ''page_number'')),
      (lit ''text'', dict_get chunk (lit ''text''))]"

definition clean_value :: "pystr \<Rightarrow> pyval \<Rightarrow> pyval" where
  "clean_value key val =
     (if val = PNone then (if key = lit ''page_number'' then PInt 0 else PStr [])
      else val)"

definition metadata_clean :: "(pystr \<times> pyval) list \<Rightarrow> (pystr \<times> pyval) list" where
  "metadata_clean meta = map (\<lambda>(key, val). (key, clean_value key val)) meta"

text \<open>The record built for the chunk at offset \<open>j\<close> of the batch that starts at \<open>i\<close>.\<close>

definition make_record :: "pystr \<Rightarrow> nat \<Rightarrow> nat \<Rightarrow> (pystr \<times> pyval) list \<Rightarrow> vector_record" where
  "make_record file_name i j chunk =
     \<lparr>rec_id = splitext_root file_name @ lit ''_'' @ str_nat (i + j),
      rec_text = dict_get_default chunk (lit ''text'') (PStr []),
      rec_metadata = metadata_clean (metadata_raw chunk)\<rparr>"

text \<open>
  The body of the batch loop for the batch that starts at \<open>i\<close>. \<open>add_ok k\<close> tells
  whether the \<open>k\<close>-th call of \<^verbatim>\<open>encode\<close> and \<^verbatim>\<open>add\<close> of the run returns; when it
  raises, the handler prints and the loop goes on.
\<close>

definition index_batch ::
  "(nat \<Rightarrow> bool) \<Rightarrow> pystr \<Rightarrow> (pystr \<times> pyval) list list \<Rightarrow> nat \<Rightarrow> index_state \<Rightarrow> index_state" where
  "index_batch add_ok file_name cleaned_chunks i st =
     (let batch = take BATCH_SIZE (drop i cleaned_chunks);
          st1 = say (MsgCreating (i div BATCH_SIZE + 1)) st;
          records = map (\<lambda>j. make_record file_name i j (batch ! j)) [0..<length batch];
          ok = add_ok (length (attempts st1));
          st2 = st1\<lparr>attempts := attempts st1 @ [(records, ok)]\<rparr>
      in if ok
         then say (MsgAdded (length batch))
                (st2\<lparr>total_vectors_added := total_vectors_added st2 + length batch\<rparr>)
         else say MsgAddError st2)"

text \<open>\<^verbatim>\<open>for i in range(0, len(cleaned_chunks), BATCH_SIZE)\<close>, from \<open>i\<close> on.\<close>

function index_batches ::
  "(nat \<Rightarrow> bool) \<Rightarrow> pystr \<Rightarrow> (pystr \<times> pyval) list list \<Rightarrow> nat \<Rightarrow> index_state \<Rightarrow> index_state" where
  "index_batches add_ok file_name cleaned_chunks i st =
     (if i < length cleaned_chunks
      then index_batches add_ok file_name cleaned_chunks (i + BATCH_SIZE)
             (index_batch add_ok file_name cleaned_chunks i st)
      else st)"
  by pat_completeness auto
termination
  by (relation "measure (\<lambda>(add_ok, file_name, cleaned_chunks, i, st). length cleaned_chunks - i)")
     (auto simp: BATCH_SIZE_def)

declare index_batches.simps [simp del]

text \<open>
  Iterating over a loaded value: a list gives its items, a dict its keys, a string its
  characters; anything else raises \<^verbatim>\<open>TypeError\<close>.
\<close>

fun py_iter :: "pyval \<Rightarrow> py_error + pyval list" where
  "py_iter (PList xs) = Inr xs"
| "py_iter (PDict kvs) = Inr (map (\<lambda>kv. PStr (fst kv)) kvs)"
| "py_iter (PStr s) = Inr (map (\<lambda>c. PStr [c]) s)"
| "py_iter v = Inl TypeError"

text \<open>
  \<^verbatim>\<open>[chunk for chunk in chunks if not is_junk(chunk.get("text"))]\<close>: \<^verbatim>\<open>.get\<close>
  exists on a dict only, so the first item that is not a dict raises
  \<^verbatim>\<open>AttributeError\<close>. The survivors are dicts and are returned as such.
\<close>

fun clean_chunks :: "pyval list \<Rightarrow> py_error + (pystr \<times> pyval) list list" where
  "clean_chunks [] = Inr []"
| "clean_chunks (PDict chunk # rest) =
     (case clean_chunks rest of
        Inl e \<Rightarrow> Inl e
      | Inr kept \<Rightarrow>
          Inr (if is_junk (dict_get chunk (lit ''text'')) then kept else chunk # kept))"
| "clean_chunks (v # rest) = Inl AttributeError"

text \<open>
  What opening and \<^verbatim>\<open>json.load\<close> gave for one file: \<open>ReadFailed\<close> is a
  \<^verbatim>\<open>JSONDecodeError\<close> or an \<^verbatim>\<open>IOError\<close>, which the loop catches; \<open>ReadRaised\<close>
  is any other exception, which it does not.
\<close>

datatype file_read = ReadFailed | ReadRaised | Loaded pyval

text \<open>The body of the loop over the files; \<open>Inl\<close> is an exception that leaves the function.\<close>

definition index_file ::
  "(nat \<Rightarrow> bool) \<Rightarrow> pystr \<Rightarrow> file_read \<Rightarrow> index_state \<Rightarrow> py_error + index_state" where
  "index_file add_ok file_name content st0 =
     (let st = say (MsgProcessing file_name) st0
      in case content of
           ReadFailed \<Rightarrow>
             Inr ((say (MsgReadError file_name) st)
                    \<lparr>skipped_files_count := skipped_files_count st + 1\<rparr>)
         | ReadRaised \<Rightarrow> Inl OtherError
         | Loaded chunks \<Rightarrow>
             if \<not> truthy chunks
             then Inr ((say (MsgNoContent file_name) st)
                         \<lparr>skipped_files_count := skipped_files_count st + 1\<rparr>)
             else
               (case py_iter chunks of
                  Inl e \<Rightarrow> Inl e
                | Inr items \<Rightarrow>
                   (case clean_chunks items of
                      Inl e \<Rightarrow> Inl e
                    | Inr cleaned_chunks \<Rightarrow>
                        (let num_filtered = length items - length cleaned_chunks;
                             st1 = (if num_filtered > 0 then say (MsgRemoved num_filtered) st
                                    else st)
                         in if cleaned_chunks = []
                            then Inr ((say (MsgNoValid file_name) st1)
                                   \<lparr>skipped_files_count := skipped_files_count st1 + 1\<rparr>)
                            else Inr (index_batches add_ok file_name cleaned_chunks 0 st1)))))"

text \<open>
  The loop over the files. An exception ends the run; what was inserted before it stays
  in the store, so the state reached is returned with it.
\<close>

fun index_files ::
  "(nat \<Rightarrow> bool) \<Rightarrow> (pystr \<times> file_read) list \<Rightarrow> index_state \<Rightarrow> index_state \<times> py_error option" where
  "index_files add_ok [] st = (st, None)"
| "index_files add_ok ((file_name, content) # rest) st =
     (case index_file add_ok file_name content st of
        Inl e \<Rightarrow> (say (MsgProcessing file_name) st, Some e)
      | Inr st' \<Rightarrow> index_files add_ok rest st')"

definition initial_state :: index_state where
  "initial_state =
     \<lparr>total_vectors_added = 0, skipped_files_count = 0, attempts = [], console = []\<rparr>"

text \<open>
  \<^verbatim>\<open>embed_and_index_documents\<close>. \<open>dir\<close> is \<open>None\<close> when the directory of processed
  documents does not exist, and otherwise its entries with what reading each one gives.
\<close>

definition embed_and_index_documents ::
  "(nat \<Rightarrow> bool) \<Rightarrow> (pystr \<times> file_read) list option \<Rightarrow> index_state \<times> py_error option" where
  "embed_and_index_documents add_ok dir =
     (case dir of
        None \<Rightarrow> (say MsgDirMissing initial_state, None)
      | Some entries \<Rightarrow>
          (let json_files = filter (\<lambda>(f, content). endswith f (lit ''.json'')) entries;
               st0 = say (MsgFound (length json_files)) initial_state
           in case index_files add_ok json_files st0 of
                (st, Some e) \<Rightarrow> (st, Some e)
              | (st, None) \<Rightarrow>
                  (let st1 = say MsgComplete st;
                       st2 = (if skipped_files_count st1 > 0
                              then say (MsgSkipped (skipped_files_count st1)) st1 else st1)
                   in (say (MsgTotal (total_vectors_added st2)) st2, None))))"

section \<open>The chunker: \<^verbatim>\<open>chunker.py\<close>\<close>

text \<open>
  An element of the partitioner and its metadata, as far as the chunker reads them.
  \<open>None\<close> in a field says that the object has no such attribute, which
  \<^verbatim>\<open>hasattr\<close> and the default of \<^verbatim>\<open>getattr\<close> test. An element is an object
  without \<^verbatim>\<open>__bool__\<close> or \<^verbatim>\<open>__len__\<close>, so it counts as true.
\<close>

record metadata =
  md_page_number :: "pyval option"
  md_filename :: "pyval option"

record element =
  el_text :: "pystr option"
  el_metadata :: "metadata option"

text \<open>
  How \<^verbatim>\<open>response.json()\<close> fails on a body that is not JSON. Since requests 2.27 it
  raises \<^verbatim>\<open>requests.exceptions.JSONDecodeError\<close>, which is a \<^verbatim>\<open>RequestException\<close>.
  Before, it raised the \<^verbatim>\<open>JSONDecodeError\<close> of the \<^verbatim>\<open>json\<close> module or, where
  \<^verbatim>\<open>simplejson\<close> is installed, the one of \<^verbatim>\<open>simplejson\<close>, which is a \<^verbatim>\<open>ValueError\<close>
  and nothing more.
\<close>

datatype body_error = AsRequestException | AsJSONDecodeError | AsValueError

text \<open>
  What the HTTP call gave: \<^verbatim>\<open>requests.post\<close> raised, \<^verbatim>\<open>raise_for_status\<close> raised
  (both raise a \<^verbatim>\<open>RequestException\<close>), \<^verbatim>\<open>response.json()\<close> raised, or
  \<^verbatim>\<open>response.json()\<close> parsed the body to a value.
\<close>

datatype http_reply = PostFailed | HttpErrorStatus | BodyNotJson body_error | JsonBody pyval

text \<open>
  What \<^verbatim>\<open>json.loads\<close> gives on a string: a \<^verbatim>\<open>JSONDecodeError\<close>, another
  exception, or the value.
\<close>

datatype loads_result = DecodeError | LoadsRaised | Decoded pyval

text \<open>What the two chunkers print; the raw response is printed on a line of its own.\<close>

datatype chunk_msg =
    ErrConnect
  | ErrParse
  | RawResponse pyval
  | ErrUnexpected
  | DebugRaw pyval
  | WarnNoPropositions

text \<open>
  What a chunker gives: an exception that leaves it (\<open>Inl\<close>), or the value it returns,
  where \<open>None\<close> is the sentinel; and what it printed.
\<close>

type_synonym chunk_result =
  "(py_error + (pystr \<times> pyval) list list option) \<times> chunk_msg list"

text \<open>The loop over the keys \<^verbatim>\<open>['proposition', 'statement', 'text']\<close> of a dict item.\<close>

fun first_str_key :: "(pystr \<times> pyval) list \<Rightarrow> pystr list \<Rightarrow> pystr" where
  "first_str_key prop_item [] = []"
| "first_str_key prop_item (key # keys) =
     (case dict_get prop_item key of
        PStr s \<Rightarrow> s
      | _ \<Rightarrow> first_str_key prop_item keys)"

text \<open>\<^verbatim>\<open>actual_text_to_check\<close> for one item.\<close>

fun extract_text :: "pyval \<Rightarrow> pystr" where
  "extract_text (PStr s) = s"
| "extract_text (PDict prop_item) =
     first_str_key prop_item [lit ''proposition'', lit ''statement'', lit ''text'']"
| "extract_text v = []"

text \<open>The loop over the elements that looks for \<^verbatim>\<open>source_element\<close>.\<close>

fun find_source :: "element list \<Rightarrow> pystr \<Rightarrow> element option" where
  "find_source [] actual_text = None"
| "find_source (el # els) actual_text =
     (case el_text el of
        None \<Rightarrow> find_source els actual_text
      | Some t \<Rightarrow>
          if str_in t actual_text \<or> str_in actual_text t then Some el
          else find_source els actual_text)"

text \<open>\<^verbatim>\<open>getattr(obj, name, default)\<close> on an attribute that may be absent.\<close>

definition getattr_default :: "pyval option \<Rightarrow> pyval \<Rightarrow> pyval" where
  "getattr_default attr dflt = (case attr of None \<Rightarrow> dflt | Some v \<Rightarrow> v)"

text \<open>\<^verbatim>\<open>enriched_prop\<close> for a text that is kept.\<close>

definition enrich :: "element list \<Rightarrow> pystr \<Rightarrow> (pystr \<times> pyval) list" where
  "enrich elements actual_text =
     (let source_element = find_source elements actual_text;
          md = (case source_element of None \<Rightarrow> None | Some el \<Rightarrow> el_metadata el);
          page_number = (case md of None \<Rightarrow> PNone
                         | Some m \<Rightarrow> getattr_default (md_page_number m) PNone);
          filename = (case md of None \<Rightarrow> PStr (lit ''unknown'')
                      | Some m \<Rightarrow> getattr_default (md_filename m) (PStr (lit ''unknown'')))
      in [(lit ''text'', PStr actual_text),
          (lit ''document_name'', filename),
          (lit ''page_number'', page_number)])"

text \<open>The loop over the proposition items: an item with no text is skipped.\<close>

fun enrich_all :: "element list \<Rightarrow> pyval list \<Rightarrow> (pystr \<times> pyval) list list" where
  "enrich_all elements [] = []"
| "enrich_all elements (prop_item # rest) =
     (let actual_text_to_check = extract_text prop_item
      in if actual_text_to_check = [] then enrich_all elements rest
         else enrich elements actual_text_to_check # enrich_all elements rest)"

text \<open>
  The handler of \<^verbatim>\<open>response.json()\<close> that raised, in both chunkers. A
  \<^verbatim>\<open>RequestException\<close> goes to the first handler and a \<^verbatim>\<open>ValueError\<close> to the last;
  the \<^verbatim>\<open>JSONDecodeError\<close> of the \<^verbatim>\<open>json\<close> module goes to the second, which calls
  \<^verbatim>\<open>response.json()\<close> again, and that raises again, out of the function.
\<close>

definition body_error_handler :: "body_error \<Rightarrow> chunk_result" where
  "body_error_handler e =
     (case e of
        AsRequestException \<Rightarrow> (Inr None, [ErrConnect])
      | AsJSONDecodeError \<Rightarrow> (Inl JSONDecodeError, [])
      | AsValueError \<Rightarrow> (Inr None, [ErrUnexpected]))"

text \<open>
  The handler of \<^verbatim>\<open>json.JSONDecodeError\<close> after \<^verbatim>\<open>json.loads\<close> raised it, in both
  chunkers; \<open>out\<close> is what was printed before. It prints the error and then the
  \<^verbatim>\<open>response\<close> field of the reply. \<^verbatim>\<open>print\<close> raises \<^verbatim>\<open>UnicodeEncodeError\<close> when
  the console cannot encode the text, and \<open>can_print v\<close> tells whether it can encode the
  text of \<open>v\<close>; an exception raised in a handler leaves the function. The fixed texts
  and the texts of the exceptions printed by the chunkers are ASCII and are taken to
  print.
\<close>

definition json_error_handler ::
  "(pyval \<Rightarrow> bool) \<Rightarrow> (pystr \<times> pyval) list \<Rightarrow> chunk_msg list \<Rightarrow> chunk_result" where
  "json_error_handler can_print rj out =
     (let raw_response =
            dict_get_default rj (lit ''response'') (PStr (lit ''No response text found.''))
      in if can_print raw_response
         then (Inr None, out @ [ErrParse, RawResponse raw_response])
         else (Inl UnicodeEncodeError, out @ [ErrParse]))"

text \<open>
  \<^verbatim>\<open>chunk_batch_into_propositions\<close> of \<^verbatim>\<open>chunker.py\<close>. \<^verbatim>\<open>.get\<close> on a value that
  is not a dict and \<^verbatim>\<open>json.loads\<close> on a value that is not a string raise into the last
  handler.
\<close>

definition chunk_batch_into_propositions ::
  "(pyval \<Rightarrow> bool) \<Rightarrow> (pystr \<Rightarrow> loads_result) \<Rightarrow> http_reply \<Rightarrow> element list
     \<Rightarrow> chunk_result" where
  "chunk_batch_into_propositions can_print json_loads reply elements =
     (case reply of
        PostFailed \<Rightarrow> (Inr None, [ErrConnect])
      | HttpErrorStatus \<Rightarrow> (Inr None, [ErrConnect])
      | BodyNotJson e \<Rightarrow> body_error_handler e
      | JsonBody response_json \<Rightarrow>
         (case response_json of
            PDict rj \<Rightarrow>
             (case dict_get_default rj (lit ''response'') (PStr (lit ''{}'')) of
                PStr raw \<Rightarrow>
                 (case json_loads raw of
                    DecodeError \<Rightarrow> json_error_handler can_print rj []
                  | LoadsRaised \<Rightarrow> (Inr None, [ErrUnexpected])
                  | Decoded response_data \<Rightarrow>
                     (case response_data of
                        PDict rd \<Rightarrow>
                         (case py_iter (dict_get_default rd (lit ''propositions'') (PList [])) of
                            Inl e \<Rightarrow> (Inr None, [ErrUnexpected])
                          | Inr propositions \<Rightarrow>
                              (Inr (Some (enrich_all elements propositions)), []))
                      | _ \<Rightarrow> (Inr None, [ErrUnexpected])))
              | _ \<Rightarrow> (Inr None, [ErrUnexpected]))
          | _ \<Rightarrow> (Inr None, [ErrUnexpected])))"

section \<open>The second chunker: \<^verbatim>\<open>cloud_utils.py\<close>\<close>

text \<open>
  \<^verbatim>\<open>chunk_batch_into_propositions\<close> of \<^verbatim>\<open>cloud_utils.py\<close>. It prints the
  \<^verbatim>\<open>response\<close> field before it parses it, and a warning when \<^verbatim>\<open>propositions\<close>
  is false. The first of these is inside the \<^verbatim>\<open>try\<close>: when it raises, the last
  handler prints the text of the exception and returns the sentinel.
\<close>

definition cloud_utils_chunk_batch_into_propositions ::
  "(pyval \<Rightarrow> bool) \<Rightarrow> (pystr \<Rightarrow> loads_result) \<Rightarrow> http_reply \<Rightarrow> element list
     \<Rightarrow> chunk_result" where
  "cloud_utils_chunk_batch_into_propositions can_print json_loads reply elements =
     (case reply of
        PostFailed \<Rightarrow> (Inr None, [ErrConnect])
      | HttpErrorStatus \<Rightarrow> (Inr None, [ErrConnect])
      | BodyNotJson e \<Rightarrow> body_error_handler e
      | JsonBody response_json \<Rightarrow>
         (case response_json of
            PDict rj \<Rightarrow>
             (let raw_response_text = dict_get_default rj (lit ''response'') (PStr (lit ''{}''));
                  out = [DebugRaw raw_response_text]
              in if \<not> can_print raw_response_text then (Inr None, [ErrUnexpected])
                 else
                  (case raw_response_text of
                     PStr raw \<Rightarrow>
                      (case json_loads raw of
                         DecodeError \<Rightarrow> json_error_handler can_print rj out
                       | LoadsRaised \<Rightarrow> (Inr None, out @ [ErrUnexpected])
                       | Decoded response_data \<Rightarrow>
                          (case response_data of
                             PDict rd \<Rightarrow>
                              (let propositions =
                                     dict_get_default rd (lit ''propositions'') (PList []);
                                   out1 = (if \<not> truthy propositions
                                           then out @ [WarnNoPropositions] else out)
                               in case py_iter propositions of
                                    Inl e \<Rightarrow> (Inr None, out1 @ [ErrUnexpected])
                                  | Inr items \<Rightarrow>
                                      (Inr (Some (enrich_all elements items)), out1))
                           | _ \<Rightarrow> (Inr None, out @ [ErrUnexpected])))
                   | _ \<Rightarrow> (Inr None, out @ [ErrUnexpected])))
          | _ \<Rightarrow> (Inr None, [ErrUnexpected])))"

text \<open>
  The names that \<^verbatim>\<open>cloud_utils.py\<close> binds at its top level: its three imports and
  its one function.
\<close>

definition cloud_utils_names :: "string list" where
  "cloud_utils_names = [''json'', ''requests'', ''config'', ''chunk_batch_into_propositions'']"

section \<open>The ingester: \<^verbatim>\<open>ingest.py\<close>\<close>

text \<open>\<^verbatim>\<open>from module import a, b\<close> raises \<^verbatim>\<open>ImportError\<close> when the module binds no such name.\<close>

definition import_from :: "string list \<Rightarrow> string list \<Rightarrow> py_error + unit" where
  "import_from module_names wanted =
     (if list_all (\<lambda>n. n \<in> set module_names) wanted then Inr () else Inl ImportError)"

text \<open>\<^verbatim>\<open>from cloud_utils import get_r2_client, upload_to_r2\<close>, at the top of the module.\<close>

definition ingest_import_cloud_utils :: "py_error + unit" where
  "ingest_import_cloud_utils = import_from cloud_utils_names [''get_r2_client'', ''upload_to_r2'']"

definition ingest_BATCH_SIZE :: nat where
  "ingest_BATCH_SIZE = 10"

text \<open>
  The loop of \<^verbatim>\<open>process_document\<close> over the elements still to come. \<open>llm k\<close> is the
  reply to the \<open>k\<close>-th call of the chunker; \<open>calls\<close> lists the batches chunked so far.
  The call of the chunker is in no \<^verbatim>\<open>try\<close>, so an exception of the chunker leaves the
  loop (\<open>Inl\<close>); \<open>Inr None\<close> says that the function returned from inside the loop.
\<close>

fun chunk_loop ::
  "(pyval \<Rightarrow> bool) \<Rightarrow> (pystr \<Rightarrow> loads_result) \<Rightarrow> (nat \<Rightarrow> http_reply) \<Rightarrow> element list
     \<Rightarrow> element list \<Rightarrow> (pystr \<times> pyval) list list \<Rightarrow> element list list
     \<Rightarrow> (py_error + (pystr \<times> pyval) list list option) \<times> element list list" where
  "chunk_loop can_print json_loads llm [] element_batch all_propositions calls =
     (Inr (Some all_propositions), calls)"
| "chunk_loop can_print json_loads llm (el # rest) element_batch all_propositions calls =
     (let element_batch' = element_batch @ [el]
      in if length element_batch' \<ge> ingest_BATCH_SIZE \<or> rest = []
         then
           (case fst (chunk_batch_into_propositions can_print json_loads (llm (length calls))
                        element_batch') of
              Inl e \<Rightarrow> (Inl e, calls @ [element_batch'])
            | Inr None \<Rightarrow> (Inr None, calls @ [element_batch'])
            | Inr (Some propositions) \<Rightarrow>
                chunk_loop can_print json_loads llm rest [] (all_propositions @ propositions)
                  (calls @ [element_batch']))
         else chunk_loop can_print json_loads llm rest element_batch' all_propositions calls)"

text \<open>
  What \<^verbatim>\<open>partition_pdf\<close> gave: an exception with its text, or the elements. What the
  \<^verbatim>\<open>with open(...)\<close> block that writes the output file gave: an exception with its
  text, or nothing.
\<close>

datatype partition_result = PartitionRaised pystr | Partitioned "element list"

datatype save_outcome = SaveRaised pystr | SaveReturned

text \<open>What became of the local JSON file of a document.\<close>

datatype save_result = NotAttempted | SaveError | Saved pystr "(pystr \<times> pyval) list list"

text \<open>
  What a call of \<^verbatim>\<open>process_document\<close> did: the batches it chunked, the local file, the
  key under which \<^verbatim>\<open>upload_to_r2\<close> was called, and the exception that left it, if any.
\<close>

record ingest_effects =
  chunk_calls :: "element list list"
  local_file :: save_result
  uploaded :: "pystr option"
  raised :: "py_error option"

text \<open>
  \<^verbatim>\<open>process_document\<close>. \<open>file_name\<close> is the base name of the path; \<open>makedirs_ok\<close>
  tells whether \<^verbatim>\<open>os.makedirs\<close> returned; \<open>r2_client\<close> is \<open>None\<close> for the Python
  \<^verbatim>\<open>None\<close> and a client object otherwise. The function prints the file name first,
  and the text of an exception in each of its two handlers; a \<^verbatim>\<open>print\<close> that raises
  there leaves the function. The line printed after the file is written is inside the
  \<^verbatim>\<open>try\<close>, and its failure changes only what is printed.
\<close>

definition process_document ::
  "(pyval \<Rightarrow> bool) \<Rightarrow> (pystr \<Rightarrow> loads_result) \<Rightarrow> (nat \<Rightarrow> http_reply) \<Rightarrow> bool
     \<Rightarrow> save_outcome \<Rightarrow> pystr \<Rightarrow> partition_result \<Rightarrow> 'c option \<Rightarrow> ingest_effects" where
  "process_document can_print json_loads llm makedirs_ok save file_name partitioned r2_client =
     (let nothing = \<lparr>chunk_calls = [], local_file = NotAttempted, uploaded = None,
                      raised = None\<rparr>
      in if \<not> can_print (PStr file_name) then nothing\<lparr>raised := Some UnicodeEncodeError\<rparr>
         else if \<not> makedirs_ok then nothing\<lparr>raised := Some OSError\<rparr>
         else
          (case partitioned of
             PartitionRaised msg \<Rightarrow>
               if can_print (PStr msg) then nothing
               else nothing\<lparr>raised := Some UnicodeEncodeError\<rparr>
           | Partitioned elements \<Rightarrow>
              (case chunk_loop can_print json_loads llm elements [] [] [] of
                 (Inl e, calls) \<Rightarrow> nothing\<lparr>chunk_calls := calls, raised := Some e\<rparr>
               | (Inr None, calls) \<Rightarrow> nothing\<lparr>chunk_calls := calls\<rparr>
               | (Inr (Some all_propositions), calls) \<Rightarrow>
                  (let output_filename = splitext_root file_name @ lit ''.json'';
                       key = (if r2_client \<noteq> None \<and> all_propositions \<noteq> []
                              then Some (lit ''processed/'' @ output_filename) else None)
                   in case save of
                        SaveReturned \<Rightarrow>
                          \<lparr>chunk_calls = calls,
                           local_file = Saved output_filename all_propositions,
                           uploaded = key, raised = None\<rparr>
                      | SaveRaised msg \<Rightarrow>
                          if can_print (PStr msg)
                          then \<lparr>chunk_calls = calls, local_file = SaveError,
                                uploaded = key, raised = None\<rparr>
                          else \<lparr>chunk_calls = calls, local_file = SaveError,
                                uploaded = None, raised = Some UnicodeEncodeError\<rparr>))))"

section \<open>The JSON encoder: \<^verbatim>\<open>json.dump(obj, f, ensure_ascii=False, indent=4)\<close>\<close>

text \<open>
  \<^verbatim>\<open>sys.get_int_max_str_digits()\<close> of Python 3.11 and later: an \<^verbatim>\<open>int\<close> with more
  decimal digits is not converted from or to a string.
\<close>

definition int_max_str_digits :: nat where
  "int_max_str_digits = 4300"

text \<open>
  What the encoder and the file give: the text, an exception, or a case that is not
  modelled (the text of a \<^verbatim>\<open>float\<close>).
\<close>

datatype 'a outcome = Raised | Unmodelled | Done 'a

definition hex_digit :: "nat \<Rightarrow> nat" where
  "hex_digit n = (if n < 10 then 48 + n else 87 + n)"

text \<open>The replacement of one code point by \<^verbatim>\<open>encode_basestring\<close>.\<close>

definition escape_char :: "nat \<Rightarrow> pystr" where
  "escape_char c =
     (if c = 92 then [92, 92]
      else if c = 34 then [92, 34]
      else if c = 8 then [92, 98]
      else if c = 12 then [92, 102]
      else if c = 10 then [92, 110]
      else if c = 13 then [92, 114]
      else if c = 9 then [92, 116]
      else if c < 32 then [92, 117, 48, 48, hex_digit (c div 16), hex_digit (c mod 16)]
      else [c])"

definition encode_basestring :: "pystr \<Rightarrow> pystr" where
  "encode_basestring s = [34] @ concat (map escape_char s) @ [34]"

text \<open>\<^verbatim>\<open>int.__repr__\<close>\<close>

definition int_repr :: "int \<Rightarrow> pystr outcome" where
  "int_repr i =
     (let digits = str_nat (nat \<bar>i\<bar>)
      in if length digits > int_max_str_digits then Raised
         else Done (if i < 0 then 45 # digits else digits))"

text \<open>A newline and the indentation of a level.\<close>

definition newline_indent :: "nat \<Rightarrow> pystr" where
  "newline_indent level = 10 # replicate (4 * level) 32"

text \<open>
  \<^verbatim>\<open>_iterencode\<close>, \<^verbatim>\<open>_iterencode_list\<close> and \<^verbatim>\<open>_iterencode_dict\<close> at an indentation
  level, all chunks joined. The second and third function give the items after the
  opening bracket, each one after its separator.
\<close>

fun iterencode :: "nat \<Rightarrow> pyval \<Rightarrow> pystr outcome"
  and iterencode_items :: "nat \<Rightarrow> bool \<Rightarrow> pyval list \<Rightarrow> pystr outcome"
  and iterencode_pairs :: "nat \<Rightarrow> bool \<Rightarrow> (pystr \<times> pyval) list \<Rightarrow> pystr outcome" where
  "iterencode level PNone = Done (lit ''null'')"
| "iterencode level (PBool b) = Done (if b then lit ''true'' else lit ''false'')"
| "iterencode level (PInt i) = int_repr i"
| "iterencode level (PFloat w) = Unmodelled"
| "iterencode level (PStr s) = Done (encode_basestring s)"
| "iterencode level (PList xs) =
     (if xs = [] then Done (lit ''[]'')
      else case iterencode_items (level + 1) True xs of
             Done body \<Rightarrow> Done ([91] @ body @ newline_indent level @ [93])
           | Raised \<Rightarrow> Raised
           | Unmodelled \<Rightarrow> Unmodelled)"
| "iterencode level (PDict kvs) =
     (if kvs = [] then Done (lit ''{}'')
      else case iterencode_pairs (level + 1) True kvs of
             Done body \<Rightarrow> Done ([123] @ body @ newline_indent level @ [125])
           | Raised \<Rightarrow> Raised
           | Unmodelled \<Rightarrow> Unmodelled)"
| "iterencode_items level first [] = Done []"
| "iterencode_items level first (x # xs) =
     (case iterencode level x of
        Done chunk \<Rightarrow>
          (case iterencode_items level False xs of
             Done others \<Rightarrow>
               Done ((if first then [] else [44]) @ newline_indent level @ chunk @ others)
           | Raised \<Rightarrow> Raised
           | Unmodelled \<Rightarrow> Unmodelled)
      | Raised \<Rightarrow> Raised
      | Unmodelled \<Rightarrow> Unmodelled)"
| "iterencode_pairs level first [] = Done []"
| "iterencode_pairs level first ((key, val) # kvs) =
     (case iterencode level val of
        Done chunk \<Rightarrow>
          (case iterencode_pairs level False kvs of
             Done others \<Rightarrow>
               Done ((if first then [] else [44]) @ newline_indent level
                     @ encode_basestring key @ [58, 32] @ chunk @ others)
           | Raised \<Rightarrow> Raised
           | Unmodelled \<Rightarrow> Unmodelled)
      | Raised \<Rightarrow> Raised
      | Unmodelled \<Rightarrow> Unmodelled)"

definition json_dumps :: "pyval \<Rightarrow> pystr outcome" where
  "json_dumps obj = iterencode 0 obj"


section \<open>The JSON decoder: \<^verbatim>\<open>json.load(f)\<close>\<close>

text \<open>
  What scanning gives: a \<^verbatim>\<open>JSONDecodeError\<close>, another exception (the \<^verbatim>\<open>ValueError\<close> of
  an \<^verbatim>\<open>int\<close> with too many digits), a case that is not modelled (a \<^verbatim>\<open>float\<close>), the
  end of the fuel, or a value and the text after it.
\<close>

datatype 'a scan = DecodeErr | ScanRaised | ScanUnmodelled | NoFuel | Scanned 'a pystr

text \<open>The whitespace of JSON, \<^verbatim>\<open>[ \t\n\r]*\<close>.\<close>

definition is_ws :: "nat \<Rightarrow> bool" where
  "is_ws c = (c = 32 \<or> c = 9 \<or> c = 10 \<or> c = 13)"

definition skip_ws :: "pystr \<Rightarrow> pystr" where
  "skip_ws s = dropWhile is_ws s"

definition is_digit :: "nat \<Rightarrow> bool" where
  "is_digit c = (48 \<le> c \<and> c \<le> 57)"

definition hex_val :: "nat \<Rightarrow> nat option" where
  "hex_val c =
     (if 48 \<le> c \<and> c \<le> 57 then Some (c - 48)
      else if 97 \<le> c \<and> c \<le> 102 then Some (c - 87)
      else if 65 \<le> c \<and> c \<le> 70 then Some (c - 55)
      else None)"

text \<open>Four hexadecimal digits at the head of a text: their value and the text after them.\<close>

definition decode_hex4 :: "pystr \<Rightarrow> (nat \<times> pystr) option" where
  "decode_hex4 s =
     (case s of
        a # b # c # d # rest \<Rightarrow>
          (case (hex_val a, hex_val b, hex_val c, hex_val d) of
             (Some x, Some y, Some z, Some w) \<Rightarrow> Some (4096 * x + 256 * y + 16 * z + w, rest)
           | _ \<Rightarrow> None)
      | _ \<Rightarrow> None)"

text \<open>The escapes of one letter after a backslash.\<close>

definition backslash :: "nat \<Rightarrow> nat option" where
  "backslash e =
     (if e = 34 then Some 34
      else if e = 92 then Some 92
      else if e = 47 then Some 47
      else if e = 98 then Some 8
      else if e = 102 then Some 12
      else if e = 110 then Some 10
      else if e = 114 then Some 13
      else if e = 116 then Some 9
      else None)"

definition cons_result :: "nat \<Rightarrow> (pystr \<times> pystr) option \<Rightarrow> (pystr \<times> pystr) option" where
  "cons_result c r = (case r of None \<Rightarrow> None | Some (s, rest) \<Rightarrow> Some (c # s, rest))"

text \<open>
  \<^verbatim>\<open>scanstring\<close> with \<^verbatim>\<open>strict=True\<close>, on the text after the opening quote: the string
  and the text after the closing quote, or \<open>None\<close> for a \<^verbatim>\<open>JSONDecodeError\<close>. A
  \<^verbatim>\<open>\uXXXX\<close> escape needs a character after it; a high surrogate that a \<^verbatim>\<open>\uXXXX\<close>
  escape of a low surrogate follows (and a character after that) joins with it.
\<close>

function scanstring :: "pystr \<Rightarrow> (pystr \<times> pystr) option" where
  "scanstring s =
     (case s of
        [] \<Rightarrow> None
      | c # cs \<Rightarrow>
          if c = 34 then Some ([], cs)
          else if c = 92 then
            (case cs of
               [] \<Rightarrow> None
             | e # es \<Rightarrow>
                 if e \<noteq> 117 then
                   (case backslash e of
                      None \<Rightarrow> None
                    | Some ch \<Rightarrow> cons_result ch (scanstring es))
                 else
                   (case decode_hex4 es of
                      None \<Rightarrow> None
                    | Some (uni, r1) \<Rightarrow>
                        if r1 = [] then None
                        else if 55296 \<le> uni \<and> uni \<le> 56319 \<and> length r1 > 6
                                \<and> take 2 r1 = [92, 117] then
                          (case decode_hex4 (drop 2 r1) of
                             None \<Rightarrow> None
                           | Some (uni2, r2) \<Rightarrow>
                               if 56320 \<le> uni2 \<and> uni2 \<le> 57343
                               then cons_result
                                      (65536 + ((uni - 55296) * 1024 + (uni2 - 56320)))
                                      (scanstring r2)
                               else cons_result uni (scanstring r1))
                        else cons_result uni (scanstring r1)))
          else if c < 32 then None
          else cons_result c (scanstring cs))"
  by pat_completeness auto
termination
proof -
  have decode_hex4_length: "length r < length s" if "decode_hex4 s = Some (u, r)" for s u r
    using that by (auto simp: decode_hex4_def split: list.splits option.splits)
  show ?thesis
  proof (relation "measure length", goal_cases)
    case 1
    show ?case by simp
  next
    case (2 s c cs e es ch)
    then show ?case by simp
  next
    case (3 s c cs e es p uni r1 p2 uni2 r2)
    then show ?case
      using decode_hex4_length [of es uni r1] decode_hex4_length [of "drop 2 r1" uni2 r2]
      by auto
  next
    case (4 s c cs e es p uni r1 p2 uni2 r2)
    then show ?case using decode_hex4_length [of es uni r1] by auto
  next
    case (5 s c cs e es p uni r1)
    then show ?case using decode_hex4_length [of es uni r1] by auto
  next
    case (6 s c cs)
    then show ?case by simp
  qed
qed

declare scanstring.simps [simp del]

text \<open>The value of a run of decimal digits.\<close>

definition nat_of_digits :: "pystr \<Rightarrow> nat" where
  "nat_of_digits ds = foldl (\<lambda>a d. 10 * a + (d - 48)) 0 ds"

text \<open>
  A number at the head of a text, as the scanner matches it: an optional minus sign, then
  \<^verbatim>\<open>0\<close> or a run of digits that does not start with \<^verbatim>\<open>0\<close>; a fraction or an exponent
  after it makes a \<^verbatim>\<open>float\<close>.
\<close>

definition scan_number :: "pystr \<Rightarrow> pyval scan" where
  "scan_number s =
     (let neg = (s \<noteq> [] \<and> hd s = 45);
          s1 = (if neg then tl s else s);
          ds = (case s1 of [] \<Rightarrow> []
                | c # cs \<Rightarrow> if c = 48 then [48]
                            else if is_digit c then takeWhile is_digit s1 else []);
          rest = drop (length ds) s1;
          is_frac = (case rest of c # d # r \<Rightarrow> c = 46 \<and> is_digit d | _ \<Rightarrow> False);
          after_e = (case rest of c # r \<Rightarrow> if c = 101 \<or> c = 69 then Some r else None
                     | _ \<Rightarrow> None);
          is_exp = (case after_e of
                      None \<Rightarrow> False
                    | Some r \<Rightarrow>
                        (case r of
                           [] \<Rightarrow> False
                         | c # r' \<Rightarrow>
                             if c = 43 \<or> c = 45 then (r' \<noteq> [] \<and> is_digit (hd r'))
                             else is_digit c))
      in if ds = [] then DecodeErr
         else if is_frac \<or> is_exp then ScanUnmodelled
         else if length ds > int_max_str_digits then ScanRaised
         else Scanned (PInt (if neg then - int (nat_of_digits ds) else int (nat_of_digits ds)))
                rest)"

text \<open>\<^verbatim>\<open>dict(pairs)\<close>: a key that comes again keeps its place and takes the new value.\<close>

fun dict_update :: "(pystr \<times> pyval) list \<Rightarrow> pystr \<Rightarrow> pyval \<Rightarrow> (pystr \<times> pyval) list" where
  "dict_update [] k v = [(k, v)]"
| "dict_update ((k', v') # kvs) k v =
     (if k' = k then (k, v) # kvs else (k', v') # dict_update kvs k v)"

text \<open>
  The body of \<^verbatim>\<open>scan_once\<close> on a text: what the first character announces. The two
  arguments scan an object (from its first key on) and an array (from its first value on).
\<close>

definition scan_dispatch ::
  "(pystr \<Rightarrow> pyval scan) \<Rightarrow> (pystr \<Rightarrow> pyval scan) \<Rightarrow> pystr \<Rightarrow> pyval scan" where
  "scan_dispatch object array s =
     (case s of
        [] \<Rightarrow> DecodeErr
      | c # cs \<Rightarrow>
          if c = 34 then
            (case scanstring cs of None \<Rightarrow> DecodeErr | Some (str, rest) \<Rightarrow> Scanned (PStr str) rest)
          else if c = 123 then
            (let s1 = skip_ws cs
             in case s1 of
                  [] \<Rightarrow> DecodeErr
                | d # ds \<Rightarrow> if d = 125 then Scanned (PDict []) ds
                            else if d = 34 then object s1 else DecodeErr)
          else if c = 91 then
            (let s1 = skip_ws cs
             in case s1 of
                  [] \<Rightarrow> DecodeErr
                | d # ds \<Rightarrow> if d = 93 then Scanned (PList []) ds else array s1)
          else if c = 110 then
            (if take 3 cs = lit ''ull'' then Scanned PNone (drop 3 cs) else DecodeErr)
          else if c = 116 then
            (if take 3 cs = lit ''rue'' then Scanned (PBool True) (drop 3 cs) else DecodeErr)
          else if c = 102 then
            (if take 4 cs = lit ''alse'' then Scanned (PBool False) (drop 4 cs) else DecodeErr)
          else if c = 78 then
            (if take 2 cs = lit ''aN'' then ScanUnmodelled else DecodeErr)
          else if c = 73 then
            (if take 7 cs = lit ''nfinity'' then ScanUnmodelled else DecodeErr)
          else if c = 45 \<and> take 8 cs = lit ''Infinity'' then ScanUnmodelled
          else scan_number s)"

text \<open>
  One turn of the loop of \<^verbatim>\<open>JSONArray\<close>: a value, then \<^verbatim>\<open>]\<close> or a comma and the next
  turn. \<open>acc\<close> holds the values so far.
\<close>

definition array_step ::
  "(pystr \<Rightarrow> pyval scan) \<Rightarrow> (pyval list \<Rightarrow> pystr \<Rightarrow> pyval scan) \<Rightarrow> pyval list \<Rightarrow> pystr
     \<Rightarrow> pyval scan" where
  "array_step scan again acc s =
     (case scan s of
        Scanned v rest \<Rightarrow>
          (case skip_ws rest of
             [] \<Rightarrow> DecodeErr
           | d # ds \<Rightarrow>
               if d = 93 then Scanned (PList (acc @ [v])) ds
               else if d = 44 then again (acc @ [v]) (skip_ws ds)
               else DecodeErr)
      | DecodeErr \<Rightarrow> DecodeErr
      | ScanRaised \<Rightarrow> ScanRaised
      | ScanUnmodelled \<Rightarrow> ScanUnmodelled
      | NoFuel \<Rightarrow> NoFuel)"

text \<open>
  One turn of the loop of \<^verbatim>\<open>JSONObject\<close>: a key in quotes, a colon, a value, then
  \<^verbatim>\<open>}\<close> or a comma and the next turn. \<open>acc\<close> holds the pairs so far.
\<close>

definition object_step ::
  "(pystr \<Rightarrow> pyval scan) \<Rightarrow> ((pystr \<times> pyval) list \<Rightarrow> pystr \<Rightarrow> pyval scan)
     \<Rightarrow> (pystr \<times> pyval) list \<Rightarrow> pystr \<Rightarrow> pyval scan" where
  "object_step scan again acc s =
     (case s of
        [] \<Rightarrow> DecodeErr
      | q # s0 \<Rightarrow>
          if q \<noteq> 34 then DecodeErr
          else
            (case scanstring s0 of
               None \<Rightarrow> DecodeErr
             | Some (key, r0) \<Rightarrow>
                 (case skip_ws r0 of
                    [] \<Rightarrow> DecodeErr
                  | c # r1 \<Rightarrow>
                      if c \<noteq> 58 then DecodeErr
                      else
                        (case scan (skip_ws r1) of
                           Scanned v rest \<Rightarrow>
                             (case skip_ws rest of
                                [] \<Rightarrow> DecodeErr
                              | d # ds \<Rightarrow>
                                  if d = 125 then Scanned (PDict (dict_update acc key v)) ds
                                  else if d = 44
                                  then again (dict_update acc key v) (skip_ws ds)
                                  else DecodeErr)
                         | DecodeErr \<Rightarrow> DecodeErr
                         | ScanRaised \<Rightarrow> ScanRaised
                         | ScanUnmodelled \<Rightarrow> ScanUnmodelled
                         | NoFuel \<Rightarrow> NoFuel))))"

text \<open>
  \<^verbatim>\<open>scan_once\<close> and the two loops. The first argument bounds the number of calls, one
  for every value and every turn of a loop; the recursion limit of the interpreter, which
  only a deeply nested value reaches, is left out.
\<close>

fun scan_once :: "nat \<Rightarrow> pystr \<Rightarrow> pyval scan"
  and parse_array :: "nat \<Rightarrow> pyval list \<Rightarrow> pystr \<Rightarrow> pyval scan"
  and parse_object :: "nat \<Rightarrow> (pystr \<times> pyval) list \<Rightarrow> pystr \<Rightarrow> pyval scan" where
  "scan_once 0 s = NoFuel"
| "scan_once (Suc fuel) s = scan_dispatch (parse_object fuel []) (parse_array fuel []) s"
| "parse_array 0 acc s = NoFuel"
| "parse_array (Suc fuel) acc s = array_step (scan_once fuel) (parse_array fuel) acc s"
| "parse_object 0 acc s = NoFuel"
| "parse_object (Suc fuel) acc s = object_step (scan_once fuel) (parse_object fuel) acc s"

text \<open>
  \<^verbatim>\<open>json.loads\<close> on a text: no byte order mark, whitespace, one value, whitespace, the
  end. Of two calls in a row, one at least consumes a character, so this fuel is not used
  up.
\<close>

definition json_loads_text :: "pystr \<Rightarrow> pyval scan" where
  "json_loads_text s =
     (if s \<noteq> [] \<and> hd s = 65279 then DecodeErr
      else case scan_once (2 * length s + 2) (skip_ws s) of
             Scanned v rest \<Rightarrow> if skip_ws rest = [] then Scanned v [] else DecodeErr
           | r \<Rightarrow> r)"

section \<open>The processed file: \<^verbatim>\<open>open(path, mode, encoding='utf-8')\<close>\<close>

text \<open>
  The bytes of one code point in UTF-8, or \<open>None\<close> for a \<^verbatim>\<open>UnicodeEncodeError\<close>: a
  surrogate has no encoding (and no \<^verbatim>\<open>str\<close> holds a code point above \<^verbatim>\<open>0x10FFFF\<close>).
\<close>

definition utf8_char :: "nat \<Rightarrow> nat list option" where
  "utf8_char c =
     (if c < 128 then Some [c]
      else if c < 2048 then Some [192 + c div 64, 128 + c mod 64]
      else if 55296 \<le> c \<and> c \<le> 57343 then None
      else if c < 65536
      then Some [224 + c div 4096, 128 + (c div 64) mod 64, 128 + c mod 64]
      else if c < 1114112
      then Some [240 + c div 262144, 128 + (c div 4096) mod 64, 128 + (c div 64) mod 64,
                 128 + c mod 64]
      else None)"

fun utf8_encode :: "pystr \<Rightarrow> nat list option" where
  "utf8_encode [] = Some []"
| "utf8_encode (c # cs) =
     (case utf8_char c of
        None \<Rightarrow> None
      | Some bs \<Rightarrow> (case utf8_encode cs of None \<Rightarrow> None | Some rest \<Rightarrow> Some (bs @ rest)))"

definition is_cont :: "nat \<Rightarrow> bool" where
  "is_cont b = (128 \<le> b \<and> b < 192)"

text \<open>
  The code point at the head of a byte sequence and the bytes after it, or \<open>None\<close> for
  a \<^verbatim>\<open>UnicodeDecodeError\<close>: the decoder is strict, so an overlong form, a surrogate and
  a value above \<^verbatim>\<open>0x10FFFF\<close> are refused.
\<close>

definition utf8_decode_one :: "nat list \<Rightarrow> (nat \<times> nat list) option" where
  "utf8_decode_one bs =
     (case bs of
        [] \<Rightarrow> None
      | b0 # r0 \<Rightarrow>
          if b0 < 128 then Some (b0, r0)
          else if 194 \<le> b0 \<and> b0 < 224 then
            (case r0 of
               b1 # r1 \<Rightarrow>
                 if is_cont b1 then Some ((b0 - 192) * 64 + (b1 - 128), r1) else None
             | _ \<Rightarrow> None)
          else if 224 \<le> b0 \<and> b0 < 240 then
            (case r0 of
               b1 # b2 # r2 \<Rightarrow>
                 (let c = (b0 - 224) * 4096 + (b1 - 128) * 64 + (b2 - 128)
                  in if is_cont b1 \<and> is_cont b2 \<and> 2048 \<le> c \<and> \<not> (55296 \<le> c \<and> c \<le> 57343)
                     then Some (c, r2) else None)
             | _ \<Rightarrow> None)
          else if 240 \<le> b0 \<and> b0 < 245 then
            (case r0 of
               b1 # b2 # b3 # r3 \<Rightarrow>
                 (let c = (b0 - 240) * 262144 + (b1 - 128) * 4096 + (b2 - 128) * 64 + (b3 - 128)
                  in if is_cont b1 \<and> is_cont b2 \<and> is_cont b3 \<and> 65536 \<le> c \<and> c < 1114112
                     then Some (c, r3) else None)
             | _ \<Rightarrow> None)
          else None)"

function utf8_decode :: "nat list \<Rightarrow> pystr option" where
  "utf8_decode bs =
     (if bs = [] then Some []
      else case utf8_decode_one bs of
             None \<Rightarrow> None
           | Some (c, rest) \<Rightarrow>
               (case utf8_decode rest of None \<Rightarrow> None | Some cs \<Rightarrow> Some (c # cs)))"
  by pat_completeness auto
termination
  by (relation "measure length")
     (auto simp: utf8_decode_one_def Let_def split: list.splits if_splits)

declare utf8_decode.simps [simp del]

text \<open>
  Text mode with \<^verbatim>\<open>newline=None\<close>. Writing replaces every \<^verbatim>\<open>\n\<close> by the line
  separator of the platform; reading turns \<^verbatim>\<open>\r\n\<close> and \<^verbatim>\<open>\r\<close> into \<^verbatim>\<open>\n\<close>.
\<close>

definition write_newlines :: "pystr \<Rightarrow> pystr \<Rightarrow> pystr" where
  "write_newlines linesep s = concat (map (\<lambda>c. if c = 10 then linesep else [c]) s)"

fun universal_newlines :: "pystr \<Rightarrow> pystr" where
  "universal_newlines [] = []"
| "universal_newlines [c] = (if c = 13 then [10] else [c])"
| "universal_newlines (c # d # s) =
     (if c = 13 \<and> d = 10 then 10 # universal_newlines s
      else if c = 13 then 10 # universal_newlines (d # s)
      else c # universal_newlines (d # s))"

text \<open>
  The \<^verbatim>\<open>with open(output_path, 'w', encoding='utf-8')\<close> block of \<^verbatim>\<open>process_document\<close>:
  the bytes of the file when the block ends without an exception (opening and writing
  to the disk taken to succeed).
\<close>

definition save_json :: "pystr \<Rightarrow> (pystr \<times> pyval) list list \<Rightarrow> nat list outcome" where
  "save_json linesep all_propositions =
     (case json_dumps (PList (map PDict all_propositions)) of
        Done t \<Rightarrow>
          (case utf8_encode (write_newlines linesep t) of
             None \<Rightarrow> Raised
           | Some bytes \<Rightarrow> Done bytes)
      | Raised \<Rightarrow> Raised
      | Unmodelled \<Rightarrow> Unmodelled)"

text \<open>
  The \<^verbatim>\<open>with open(file_path, 'r', encoding='utf-8')\<close> block of the indexer on a file that
  holds these bytes. A \<^verbatim>\<open>UnicodeDecodeError\<close> and the \<^verbatim>\<open>ValueError\<close> of a long
  \<^verbatim>\<open>int\<close> are neither a \<^verbatim>\<open>JSONDecodeError\<close> nor an \<^verbatim>\<open>IOError\<close>. The result is
  \<open>None\<close> where the decoder is not modelled (a \<^verbatim>\<open>float\<close> in the text). The file is
  taken to exist and to be readable.
\<close>

definition load_json :: "nat list \<Rightarrow> file_read option" where
  "load_json bytes =
     (case utf8_decode bytes of
        None \<Rightarrow> Some ReadRaised
      | Some raw \<Rightarrow>
          (case json_loads_text (universal_newlines raw) of
             Scanned chunks rest \<Rightarrow> Some (Loaded chunks)
           | DecodeErr \<Rightarrow> Some ReadFailed
           | ScanRaised \<Rightarrow> Some ReadRaised
           | ScanUnmodelled \<Rightarrow> None
           | NoFuel \<Rightarrow> None))"

section \<open>Languages of regular expressions\<close>

text \<open>What a pattern denotes, to state what the matcher decides.\<close>

inductive_set star :: "pystr set \<Rightarrow> pystr set" for A :: "pystr set" where
  star_nil: "[] \<in> star A"
| star_app: "u \<in> A \<Longrightarrow> v \<in> star A \<Longrightarrow> u @ v \<in> star A"

fun lang :: "rexp \<Rightarrow> pystr set" where
  "lang Nothing = {}"
| "lang Eps = {[]}"
| "lang (Cp c) = {[c]}"
| "lang Dot = {[c] | c. c \<noteq> 10}"
| "lang AnyCp = {[c] | c. True}"
| "lang (Alt r s) = lang r \<union> lang s"
| "lang (Seq r s) = {u @ v | u v. u \<in> lang r \<and> v \<in> lang s}"
| "lang (Star r) = star (lang r)"

section \<open>Notions for the statements\<close>

text \<open>Every record for which embedding and insertion were tried, inserted or not.\<close>

definition attempted :: "index_state \<Rightarrow> vector_record list" where
  "attempted st = concat (map fst (attempts st))"

text \<open>
  A record built from a chunk that the junk filter let through, the chunk being an object
  in the list that a processed file of the directory holds.
\<close>

definition from_chunk_of :: "(pystr \<times> file_read) list option \<Rightarrow> vector_record \<Rightarrow> bool" where
  "from_chunk_of dir r \<longleftrightarrow>
     (\<exists>entries file_name items chunk i j.
        dir = Some entries \<and> (file_name, Loaded (PList items)) \<in> set entries
        \<and> PDict chunk \<in> set items \<and> \<not> is_junk (dict_get chunk (lit ''text''))
        \<and> r = make_record file_name i j chunk)"


text \<open>A processed file that holds a JSON array of objects.\<close>

definition json_objects :: "(pystr \<times> pyval) list list \<Rightarrow> file_read" where
  "json_objects chunks = Loaded (PList (map PDict chunks))"


definition batch_count :: "nat \<Rightarrow> nat" where
  "batch_count m = (m + (BATCH_SIZE - 1)) div BATCH_SIZE"



text \<open>A processed file with two statements and two junk entries.\<close>

definition chunk_of :: "string \<Rightarrow> pyval \<Rightarrow> pyval \<Rightarrow> (pystr \<times> pyval) list" where
  "chunk_of t name page =
     [(lit ''text'', PStr (lit t)), (lit ''document_name'', name), (lit ''page_number'', page)]"

definition example_chunks :: "(pystr \<times> pyval) list list" where
  "example_chunks =
     [chunk_of ''The lease began in 2019.'' (PStr (lit ''a.pdf'')) (PInt 1),
      chunk_of ''see [name]'' (PStr (lit ''a.pdf'')) (PInt 1),
      chunk_of ''(Page: 3)'' (PStr (lit ''a.pdf'')) PNone,
      chunk_of ''Rent was due monthly.'' PNone PNone]"

definition example_dir :: "(pystr \<times> file_read) list option" where
  "example_dir = Some [(lit ''a.json'', json_objects example_chunks)]"

text \<open>
  A text with a line break between \<^verbatim>\<open>[\<close> and \<^verbatim>\<open>]\<close>, a processed file that holds
  it, and a page marker of 20 characters with spaces around it.
\<close>

definition line_break_text :: pystr where
  "line_break_text = lit ''see [na'' @ [10] @ lit ''me] in the lease''"

definition line_break_chunks :: "(pystr \<times> pyval) list list" where
  "line_break_chunks =
     [[(lit ''text'', PStr line_break_text), (lit ''document_name'', PStr (lit ''a.pdf'')),
       (lit ''page_number'', PInt 1)]]"

definition padded_page_text :: pystr where
  "padded_page_text = lit ''  (Page: 12 of 40)  ''"


text \<open>\<^verbatim>\<open>isinstance(v, str)\<close>, and the string that such a value holds.\<close>

definition is_str :: "pyval \<Rightarrow> bool" where
  "is_str v = (case v of PStr s \<Rightarrow> True | _ \<Rightarrow> False)"

definition str_of :: "pyval \<Rightarrow> pystr" where
  "str_of v = (case v of PStr s \<Rightarrow> s | _ \<Rightarrow> [])"

text \<open>A chunker result that is a list of propositions: neither the sentinel nor an exception.\<close>

definition gave_propositions :: "py_error + (pystr \<times> pyval) list list option \<Rightarrow> bool" where
  "gave_propositions r = (case r of Inr (Some props) \<Rightarrow> True | _ \<Rightarrow> False)"

text \<open>What the \<open>k\<close>-th call of the chunker, made on \<open>batch\<close>, gave.\<close>

definition call_result ::
  "(pyval \<Rightarrow> bool) \<Rightarrow> (pystr \<Rightarrow> loads_result) \<Rightarrow> (nat \<Rightarrow> http_reply) \<Rightarrow> nat \<Rightarrow> element list
     \<Rightarrow> py_error + (pystr \<times> pyval) list list option" where
  "call_result can_print json_loads llm k batch =
     fst (chunk_batch_into_propositions can_print json_loads (llm k) batch)"

text \<open>
  Whether the debug line of \<^verbatim>\<open>cloud_utils.py\<close> can be printed: it is reached on a
  reply whose body is a JSON object, with the \<^verbatim>\<open>response\<close> field of that object.
\<close>

definition debug_prints :: "(pyval \<Rightarrow> bool) \<Rightarrow> http_reply \<Rightarrow> bool" where
  "debug_prints can_print reply =
     (case reply of
        JsonBody (PDict rj) \<Rightarrow> can_print (dict_get_default rj (lit ''response'') (PStr (lit ''{}'')))
      | _ \<Rightarrow> True)"

text \<open>A batch, the items that the model returns for it, and what the chunker makes of them.\<close>

definition example_element :: element where
  "example_element =
     \<lparr>el_text = Some (lit ''The lease began in 2019. It ran for two years.''),
      el_metadata = Some \<lparr>md_page_number = Some (PInt 1),
                           md_filename = Some (PStr (lit ''a.pdf''))\<rparr>\<rparr>"

definition example_items :: "pyval list" where
  "example_items =
     [PStr (lit ''The lease began in 2019.''),
      PDict [(lit ''id'', PInt 2), (lit ''statement'', PStr (lit ''Rent was due monthly.''))],
      PDict [(lit ''note'', PStr (lit ''no text here''))],
      PInt 7,
      PStr []]"

definition example_loads :: "pystr \<Rightarrow> loads_result" where
  "example_loads raw =
     (if raw = lit ''ok'' then Decoded (PDict [(lit ''propositions'', PList example_items)])
      else DecodeError)"

definition example_reply :: "pystr \<Rightarrow> http_reply" where
  "example_reply raw = JsonBody (PDict [(lit ''model'', PStr (lit ''phi3:mini'')),
                                        (lit ''response'', PStr raw)])"

definition example_propositions :: "(pystr \<times> pyval) list list" where
  "example_propositions =
     [[(lit ''text'', PStr (lit ''The lease began in 2019.'')),
       (lit ''document_name'', PStr (lit ''a.pdf'')), (lit ''page_number'', PInt 1)],
      [(lit ''text'', PStr (lit ''Rent was due monthly.'')),
       (lit ''document_name'', PStr (lit ''unknown'')), (lit ''page_number'', PNone)]]"

text \<open>A full batch of the ingester.\<close>

definition ten_elements :: "element list" where
  "ten_elements = replicate 10 example_element"

text \<open>\<^verbatim>\<open>hasattr(el, 'text') and (el.text in t or t in el.text)\<close>\<close>

definition matches :: "element \<Rightarrow> pystr \<Rightarrow> bool" where
  "matches el t \<longleftrightarrow> (\<exists>et. el_text el = Some et \<and> (str_in et t \<or> str_in t et))"

text \<open>A vector store and an embedding model that never fail.\<close>

definition always_ok :: "nat \<Rightarrow> bool" where
  "always_ok k = True"

text \<open>What may follow a number in a text: the end, a comma or a newline.\<close>

definition value_end :: "pystr \<Rightarrow> bool" where
  "value_end rest = (case rest of [] \<Rightarrow> True | c # cs \<Rightarrow> c = 44 \<or> c = 10)"

text \<open>No object of a value holds a key twice.\<close>

fun distinct_keys :: "pyval \<Rightarrow> bool"
  and distinct_keys_items :: "pyval list \<Rightarrow> bool"
  and distinct_keys_pairs :: "(pystr \<times> pyval) list \<Rightarrow> bool" where
  "distinct_keys (PList xs) = distinct_keys_items xs"
| "distinct_keys (PDict kvs) = (distinct (map fst kvs) \<and> distinct_keys_pairs kvs)"
| "distinct_keys v = True"
| "distinct_keys_items [] = True"
| "distinct_keys_items (x # xs) = (distinct_keys x \<and> distinct_keys_items xs)"
| "distinct_keys_pairs [] = True"
| "distinct_keys_pairs ((k, v) # kvs) = (distinct_keys v \<and> distinct_keys_pairs kvs)"

text \<open>A text that starts like a value does.\<close>

definition starts_value :: "pystr \<Rightarrow> bool" where
  "starts_value t \<longleftrightarrow> t \<noteq> [] \<and> \<not> is_ws (hd t) \<and> hd t \<noteq> 93 \<and> hd t \<noteq> 125 \<and> hd t \<noteq> 44
       \<and> hd t \<noteq> 65279"

text \<open>
  Scanning gives back what encoding was given: for a value, for the items of a list after
  the opening bracket, and for the pairs of an object.
\<close>

definition roundtrip_value :: "nat \<Rightarrow> pyval \<Rightarrow> bool" where
  "roundtrip_value level v \<longleftrightarrow>
     (\<forall>t. iterencode level v = Done t \<longrightarrow> distinct_keys v \<longrightarrow>
        starts_value t \<and>
        (\<forall>rest fuel. value_end rest \<longrightarrow> length t \<le> fuel \<longrightarrow>
           scan_once fuel (t @ rest) = Scanned v rest))"

definition roundtrip_items :: "nat \<Rightarrow> bool \<Rightarrow> pyval list \<Rightarrow> bool" where
  "roundtrip_items level first xs \<longleftrightarrow>
     (\<forall>body. iterencode_items level first xs = Done body \<longrightarrow> xs \<noteq> [] \<longrightarrow>
        distinct_keys_items xs \<longrightarrow>
        (\<exists>b. body = (if first then [] else [44]) @ newline_indent level @ b \<and> starts_value b \<and>
           (\<forall>acc rest l fuel. length b < fuel \<longrightarrow>
              parse_array fuel acc (b @ newline_indent l @ 93 # rest)
                = Scanned (PList (acc @ xs)) rest)))"

definition roundtrip_pairs :: "nat \<Rightarrow> bool \<Rightarrow> (pystr \<times> pyval) list \<Rightarrow> bool" where
  "roundtrip_pairs level first kvs \<longleftrightarrow>
     (\<forall>body. iterencode_pairs level first kvs = Done body \<longrightarrow> kvs \<noteq> [] \<longrightarrow>
        distinct_keys_pairs kvs \<longrightarrow>
        (\<exists>b. body = (if first then [] else [44]) @ newline_indent level @ b \<and> b \<noteq> [] \<and> hd b = 34 \<and>
           (\<forall>acc rest l fuel. distinct (map fst acc @ map fst kvs) \<longrightarrow> length b < fuel \<longrightarrow>
              parse_object fuel acc (b @ newline_indent l @ 125 # rest)
                = Scanned (PDict (acc @ kvs)) rest)))"

text \<open>A code point that UTF-8 encodes.\<close>

definition encodable :: "nat \<Rightarrow> bool" where
  "encodable c \<longleftrightarrow> c < 55296 \<or> (57343 < c \<and> c < 1114112)"

text \<open>
  A value that a file can hold: no \<^verbatim>\<open>float\<close> (not modelled), every \<^verbatim>\<open>int\<close> within
  the digit limit, every string and key of encodable code points.
\<close>

fun storable :: "pyval \<Rightarrow> bool"
  and storable_items :: "pyval list \<Rightarrow> bool"
  and storable_pairs :: "(pystr \<times> pyval) list \<Rightarrow> bool" where
  "storable PNone = True"
| "storable (PBool b) = True"
| "storable (PInt i) = (length (str_nat (nat \<bar>i\<bar>)) \<le> int_max_str_digits)"
| "storable (PFloat w) = False"
| "storable (PStr s) = list_all encodable s"
| "storable (PList xs) = storable_items xs"
| "storable (PDict kvs) = storable_pairs kvs"
| "storable_items [] = True"
| "storable_items (x # xs) = (storable x \<and> storable_items xs)"
| "storable_pairs [] = True"
| "storable_pairs ((k, v) # kvs) = (list_all encodable k \<and> storable v \<and> storable_pairs kvs)"

text \<open>A code point that the file holds as it is: encodable, and no carriage return.\<close>

definition plain :: "nat \<Rightarrow> bool" where
  "plain c \<longleftrightarrow> encodable c \<and> c \<noteq> 13"

text \<open>An encoder result that is a text of such code points.\<close>

definition dumps_plain :: "pystr outcome \<Rightarrow> bool" where
  "dumps_plain r \<longleftrightarrow> (\<exists>t. r = Done t \<and> list_all plain t)"

text \<open>An \<^verbatim>\<open>int\<close> (no \<^verbatim>\<open>bool\<close>) or \<^verbatim>\<open>None\<close>.\<close>

definition int_or_none :: "pyval \<Rightarrow> bool" where
  "int_or_none v = (case v of PNone \<Rightarrow> True | PInt i \<Rightarrow> True | _ \<Rightarrow> False)"

text \<open>
  A proposition object: a string \<^verbatim>\<open>text\<close>, a string \<^verbatim>\<open>document_name\<close> and an
  \<^verbatim>\<open>int\<close> or \<^verbatim>\<open>None\<close> as \<^verbatim>\<open>page_number\<close>, in the order in which the chunker
  builds them.
\<close>

definition is_proposition :: "(pystr \<times> pyval) list \<Rightarrow> bool" where
  "is_proposition p \<longleftrightarrow>
     map fst p = [lit ''text'', lit ''document_name'', lit ''page_number'']
     \<and> is_str (snd (p ! 0)) \<and> is_str (snd (p ! 1)) \<and> int_or_none (snd (p ! 2))"

text \<open>
  A proposition whose text ends in a lone surrogate, which is what the escape
  \<^verbatim>\<open>\ud800\<close> in a reply of the model decodes to.
\<close>

definition surrogate_propositions :: "(pystr \<times> pyval) list list" where
  "surrogate_propositions =
     [[(lit ''text'', PStr (lit ''The lease began in 2019.'' @ [55296])),
       (lit ''document_name'', PStr (lit ''a.pdf'')), (lit ''page_number'', PInt 1)]]"

text \<open>A proposition whose page number has 4301 digits.\<close>

definition long_page_propositions :: "(pystr \<times> pyval) list list" where
  "long_page_propositions =
     [[(lit ''text'', PStr (lit ''The lease began in 2019.'')),
       (lit ''document_name'', PStr (lit ''a.pdf'')), (lit ''page_number'', PInt (10 ^ 4300))]]"

text \<open>
  A console in UTF-8, as \<^verbatim>\<open>print\<close> finds it: a string that holds a surrogate cannot be
  written; the text of any other value shows the strings in it escaped, and can.
\<close>

definition utf8_console :: "pyval \<Rightarrow> bool" where
  "utf8_console v = (case v of PStr s \<Rightarrow> list_all encodable s | _ \<Rightarrow> True)"

text \<open>
  A \<^verbatim>\<open>response\<close> field that is not JSON and ends in a lone surrogate, which is what the
  escape \<^verbatim>\<open>\ud800\<close> in the body of a reply decodes to.
\<close>

definition unprintable_raw :: pystr where
  "unprintable_raw = lit ''not json'' @ [55296]"

text \<open>
  A \<^verbatim>\<open>response\<close> field that is JSON and holds a lone surrogate, the text
  \<^verbatim>\<open>{"propositions": ["The lease began in 2019.<U+D800>"]}\<close>, and what \<^verbatim>\<open>json.loads\<close>
  gives on it.
\<close>

definition surrogate_raw :: pystr where
  "surrogate_raw =
     [123, 34] @ lit ''propositions'' @ [34, 58, 32, 91, 34]
     @ lit ''The lease began in 2019.'' @ [55296, 34, 93, 125]"

definition surrogate_loads :: "pystr \<Rightarrow> loads_result" where
  "surrogate_loads raw =
     (if raw = surrogate_raw
      then Decoded (PDict [(lit ''propositions'',
                            PList [PStr (lit ''The lease began in 2019.'' @ [55296])])])
      else DecodeError)"

section \<open>Properties\<close>

subsection \<open>The matcher decides membership in the language\<close>

lemma nullable_lang: "nullable r \<longleftrightarrow> [] \<in> lang r"
  by (induction r) (auto intro: star.star_nil)

lemma star_Cons:
  "c # w \<in> star A \<longleftrightarrow> (\<exists>u v. w = u @ v \<and> c # u \<in> A \<and> v \<in> star A)"
proof
  assume "c # w \<in> star A"
  then show "\<exists>u v. w = u @ v \<and> c # u \<in> A \<and> v \<in> star A"
  proof (induction "c # w" arbitrary: w rule: star.induct)
    case (star_app u v)
    then show ?case
      by (cases u) auto
  qed
next
  assume "\<exists>u v. w = u @ v \<and> c # u \<in> A \<and> v \<in> star A"
  then obtain u v where "w = u @ v" "c # u \<in> A" "v \<in> star A" by blast
  then show "c # w \<in> star A"
    using star.star_app [of "c # u" A v] by simp
qed

lemma deriv_lang: "w \<in> lang (deriv c r) \<longleftrightarrow> c # w \<in> lang r"
proof (induction r arbitrary: w)
  case (Seq r s)
  show ?case
  proof
    assume "w \<in> lang (deriv c (Seq r s))"
    then show "c # w \<in> lang (Seq r s)"
      using Seq by (auto simp: nullable_lang split: if_splits) (metis append_Cons append_Nil)+
  next
    assume "c # w \<in> lang (Seq r s)"
    then obtain u v where uv: "c # w = u @ v" "u \<in> lang r" "v \<in> lang s" by auto
    show "w \<in> lang (deriv c (Seq r s))"
    proof (cases u)
      case Nil
      with uv Seq show ?thesis by (auto simp: nullable_lang)
    next
      case (Cons a u')
      with uv Seq show ?thesis by (auto simp: nullable_lang)
    qed
  qed
next
  case (Star r)
  then show ?case by (auto simp: star_Cons)
qed auto

lemma fullmatch_lang: "fullmatch r s \<longleftrightarrow> s \<in> lang r"
  by (induction s arbitrary: r) (simp_all add: nullable_lang deriv_lang)

lemma lang_Star_AnyCp: "lang (Star AnyCp) = UNIV"
proof -
  have "w \<in> star (lang AnyCp)" for w
  proof (induction w)
    case Nil
    show ?case by (rule star.star_nil)
  next
    case (Cons c w)
    have "[c] \<in> lang AnyCp" by simp
    from star.star_app [OF this Cons] show ?case by simp
  qed
  then show ?thesis by auto
qed

lemma lang_Star_Dot: "lang (Star Dot) = {w. 10 \<notin> set w}"
proof -
  have "10 \<notin> set w" if "w \<in> star (lang Dot)" for w
    using that by (induction rule: star.induct) auto
  moreover have "w \<in> star (lang Dot)" if "10 \<notin> set w" for w
    using that
  proof (induction w)
    case Nil
    show ?case by (rule star.star_nil)
  next
    case (Cons c w)
    then have "[c] \<in> lang Dot" "w \<in> star (lang Dot)" by auto
    from star.star_app [OF this] show ?case by simp
  qed
  ultimately show ?thesis by auto
qed

lemma lang_Seq: "lang (Seq r s) = {u @ v | u v. u \<in> lang r \<and> v \<in> lang s}"
  by simp

lemma re_search_iff: "re_search r s \<longleftrightarrow> (\<exists>a m c. s = a @ m @ c \<and> m \<in> lang r)"
  unfolding re_search_def fullmatch_lang lang_Seq lang_Star_AnyCp by auto

lemma lang_placeholder:
  "lang placeholder_pattern =
     {[91] @ b @ [93] | b. 10 \<notin> set b} \<union> {[123] @ b @ [125] | b. 10 \<notin> set b}"
  unfolding placeholder_pattern_def lang.simps(6) lang_Seq lang_Star_Dot by auto

lemma lang_lits: "lang (lits w) = {w}"
  by (induction w) auto

lemma lang_page: "lang page_pattern = {lit ''(Page: '' @ b @ [41] | b. 10 \<notin> set b}"
  unfolding page_pattern_def lang_Seq lang_Star_Dot lang_lits lang.simps(3) by auto

text \<open>
  \<^verbatim>\<open>re.match(r'^\(Page: .*\)$', t)\<close> holds when \<open>t\<close> is \<^verbatim>\<open>(Page: \<close>, a run without
  a newline and \<^verbatim>\<open>)\<close>, with at most one newline after it.
\<close>

lemma re_match_page_iff:
  "re_match_anchored page_pattern t \<longleftrightarrow>
     (\<exists>b. 10 \<notin> set b \<and> (t = lit ''(Page: '' @ b @ [41] \<or> t = lit ''(Page: '' @ b @ [41, 10]))"
proof -
  have "re_match_anchored page_pattern t \<longleftrightarrow>
          (\<exists>u v. t = u @ v \<and> u \<in> lang page_pattern \<and> (v = [] \<or> v = [10]))"
    unfolding re_match_anchored_def fullmatch_lang lang_Seq by auto
  also have "\<dots> \<longleftrightarrow> (\<exists>u. u \<in> lang page_pattern \<and> (t = u \<or> t = u @ [10]))"
    by auto
  also have "\<dots> \<longleftrightarrow>
      (\<exists>b. 10 \<notin> set b \<and> (t = lit ''(Page: '' @ b @ [41] \<or> t = lit ''(Page: '' @ b @ [41, 10]))"
    unfolding lang_page by auto
  finally show ?thesis .
qed

text \<open>
  \<^verbatim>\<open>re.search(r'\[.*\]|\{.*\}', text)\<close> holds when \<open>text\<close> has an opening bracket and,
  after it and before any newline, the closing bracket of the same kind.
\<close>

lemma re_search_placeholder_iff:
  "re_search placeholder_pattern text \<longleftrightarrow>
     (\<exists>a b c. 10 \<notin> set b \<and> (text = a @ [91] @ b @ [93] @ c \<or> text = a @ [123] @ b @ [125] @ c))"
proof -
  have "re_search placeholder_pattern text \<longleftrightarrow>
      (\<exists>a c m. text = a @ m @ c \<and> m \<in> lang placeholder_pattern)"
    unfolding re_search_iff by blast
  also have "\<dots> \<longleftrightarrow> (\<exists>a c b. 10 \<notin> set b \<and>
      (text = a @ ([91] @ b @ [93]) @ c \<or> text = a @ ([123] @ b @ [125]) @ c))"
    unfolding lang_placeholder by blast
  also have "\<dots> \<longleftrightarrow> (\<exists>a b c. 10 \<notin> set b \<and>
      (text = a @ [91] @ b @ [93] @ c \<or> text = a @ [123] @ b @ [125] @ c))"
    by (simp only: append_assoc) blast
  finally show ?thesis .
qed

subsection \<open>Strings\<close>

lemma length_strip: "length (strip s) \<le> length s"
proof -
  have "length (dropWhile is_space (rev (dropWhile is_space (rev s))))
          \<le> length (rev (dropWhile is_space (rev s)))"
    by (rule length_dropWhile_le)
  also have "\<dots> \<le> length s"
    using length_dropWhile_le [of is_space "rev s"] by simp
  finally show ?thesis by (simp add: strip_def lstrip_def rstrip_def)
qed

lemma attempts_say [simp]: "attempts (say m st) = attempts st"
  by (simp add: say_def)

lemma total_say [simp]: "total_vectors_added (say m st) = total_vectors_added st"
  by (simp add: say_def)

lemma skipped_say [simp]: "skipped_files_count (say m st) = skipped_files_count st"
  by (simp add: say_def)

lemma attempts_index_batch:
  "attempts (index_batch add_ok fn cl i st) =
     attempts st @
       [(map (\<lambda>j. make_record fn i j (take BATCH_SIZE (drop i cl) ! j))
            [0..<length (take BATCH_SIZE (drop i cl))],
         add_ok (length (attempts st)))]"
  by (simp add: index_batch_def Let_def)

lemma index_batches_pres:
  assumes "\<And>i st. i < length cl \<Longrightarrow> P st \<Longrightarrow> P (index_batch add_ok fn cl i st)"
    and "P st"
  shows "P (index_batches add_ok fn cl i st)"
  using assms
proof (induction add_ok fn cl i st rule: index_batches.induct)
  case (1 add_ok fn cl i st)
  show ?case
  proof (cases "i < length cl")
    case True
    have "P (index_batch add_ok fn cl i st)"
      by (rule "1.prems"(1) [OF True "1.prems"(2)])
    with "1.IH" [OF True "1.prems"(1)] True show ?thesis
      by (subst index_batches.simps) simp
  next
    case False
    then show ?thesis
      using "1.prems"(2) by (subst index_batches.simps) simp
  qed
qed

lemma clean_chunks_not_junk:
  "clean_chunks items = Inr cl \<Longrightarrow> \<forall>c \<in> set cl. \<not> is_junk (dict_get c (lit ''text''))"
proof (induction items arbitrary: cl rule: clean_chunks.induct)
  case 1
  then show ?case by simp
next
  case (2 chunk rest)
  then show ?case
    by (auto split: sum.splits if_splits)
qed simp_all






lemma attempted_say [simp]: "attempted (say m st) = attempted st"
  by (simp add: attempted_def)

lemma attempted_skip [simp]: "attempted (st\<lparr>skipped_files_count := n\<rparr>) = attempted st"
  by (simp add: attempted_def)

lemma attempted_initial [simp]: "attempted initial_state = []"
  by (simp add: attempted_def initial_state_def)

lemma attempted_index_batch:
  "attempted (index_batch add_ok fn cl i st) =
     attempted st @ map (\<lambda>j. make_record fn i j (take BATCH_SIZE (drop i cl) ! j))
            [0..<length (take BATCH_SIZE (drop i cl))]"
  by (simp add: attempted_def attempts_index_batch)

lemma inserted_subset_attempted: "set (inserted st) \<subseteq> set (attempted st)"
  by (auto simp: inserted_def attempted_def)

lemma not_junk_is_str: "\<not> is_junk v \<Longrightarrow> \<exists>t. v = PStr t \<and> t \<noteq> []"
  by (cases v) (auto split: if_splits)

lemma rec_text_survivor:
  assumes "\<not> is_junk (dict_get chunk (lit ''text''))"
  shows "rec_text (make_record fn i j chunk) = dict_get chunk (lit ''text'')"
proof -
  from not_junk_is_str [OF assms] obtain t where "dict_get chunk (lit ''text'') = PStr t" by blast
  then show ?thesis
    by (auto simp: make_record_def dict_get_def dict_get_default_def split: option.splits)
qed

lemma set_strip: "set (strip t) \<subseteq> set t"
proof -
  have "set (dropWhile is_space (rev (dropWhile is_space (rev t)))) \<subseteq> set (rev (dropWhile is_space (rev t)))"
    by (rule set_dropWhileD [THEN subsetI])
  also have "\<dots> \<subseteq> set t"
    using set_dropWhileD [of _ is_space "rev t"] by auto
  finally show ?thesis by (simp add: strip_def lstrip_def rstrip_def)
qed

lemma not_junk_plain:
  assumes "10 \<le> length (strip t)" "91 \<notin> set t" "123 \<notin> set t" "40 \<notin> set t"
  shows "\<not> is_junk (PStr t)"
proof -
  have "\<not> re_search placeholder_pattern t"
    unfolding re_search_placeholder_iff using assms(2,3) by auto
  moreover have "\<not> re_match_anchored page_pattern (strip t)"
  proof
    assume "re_match_anchored page_pattern (strip t)"
    then have "40 \<in> set (strip t)"
      unfolding re_match_page_iff by (auto simp: lit_def)
    with set_strip [of t] assms(4) show False by auto
  qed
  moreover have "t \<noteq> []" using assms(1) length_strip [of t] by auto
  ultimately show ?thesis using assms(1) by simp
qed


lemma suffix_eval:
  "suffix xs ys \<longleftrightarrow> (length xs \<le> length ys \<and> drop (length ys - length xs) ys = xs)"
proof
  assume "suffix xs ys"
  then obtain zs where "ys = zs @ xs" by (auto simp: suffix_def)
  then show "length xs \<le> length ys \<and> drop (length ys - length xs) ys = xs" by simp
next
  assume "length xs \<le> length ys \<and> drop (length ys - length xs) ys = xs"
  then show "suffix xs ys" by (metis suffix_drop)
qed

subsection \<open>File names and decimal numbers\<close>




lemma str_nat_nonempty: "str_nat n \<noteq> []"
  by (subst str_nat.simps) simp


subsection \<open>The loop over the batches\<close>





lemma batch_count_0 [simp]: "batch_count 0 = 0"
  by (simp add: batch_count_def BATCH_SIZE_def)







lemma skipped_index_batch:
  "skipped_files_count (index_batch add_ok fn cl i st) = skipped_files_count st"
  unfolding index_batch_def Let_def by (simp add: say_def)







lemma skipped_index_batches:
  "skipped_files_count (index_batches add_ok fn cl i st) = skipped_files_count st"
  by (rule index_batches_pres [where P = "\<lambda>s. skipped_files_count s = skipped_files_count st"])
     (simp_all add: skipped_index_batch)















subsection \<open>The example file\<close>

lemma example_not_junk:
  "\<not> is_junk (PStr (lit ''The lease began in 2019.''))"
  "\<not> is_junk (PStr (lit ''Rent was due monthly.''))"
  by (rule not_junk_plain; simp add: lit_def strip_def lstrip_def rstrip_def is_space_def)+

lemma example_junk:
  "is_junk (PStr (lit ''see [name]''))"
  "is_junk (PStr (lit ''(Page: 3)''))"
  by (simp_all add: re_search_def placeholder_pattern_def lit_def strip_def lstrip_def
      rstrip_def is_space_def)

lemmas run_eval =
  example_dir_def example_chunks_def json_objects_def chunk_of_def embed_and_index_documents_def endswith_def suffix_eval
  index_file_def say_def initial_state_def Let_def dict_get_def dict_get_default_def
  index_batches.simps index_batch_def BATCH_SIZE_def attempted_def inserted_def str_nat.simps
  make_record_def splitext_root_def rfind_def metadata_raw_def metadata_clean_def
  clean_value_def lit_def

lemma example_attempted:
  "attempted (fst (embed_and_index_documents (\<lambda>k. True) example_dir)) =
     [make_record (lit ''a.json'') 0 0
        [(lit ''text'', PStr (lit ''The lease began in 2019.'')),
         (lit ''document_name'', PStr (lit ''a.pdf'')), (lit ''page_number'', PInt 1)],
      make_record (lit ''a.json'') 0 1
        [(lit ''text'', PStr (lit ''Rent was due monthly.'')),
         (lit ''document_name'', PNone), (lit ''page_number'', PNone)]]"
  using example_not_junk example_junk
  by (simp del: is_junk.simps add: run_eval)

subsection \<open>What \<^verbatim>\<open>strip\<close> leaves, and when a string is junk\<close>

lemma strip_decompose:
  "\<exists>l r. s = l @ strip s @ r \<and> list_all is_space l \<and> list_all is_space r"
proof -
  let ?r = "rev (takeWhile is_space (rev s))"
  let ?l = "takeWhile is_space (rstrip s)"
  have "rev (dropWhile is_space (rev s)) @ rev (takeWhile is_space (rev s))
          = rev (takeWhile is_space (rev s) @ dropWhile is_space (rev s))"
    by (simp only: rev_append)
  also have "\<dots> = s"
    by (simp only: takeWhile_dropWhile_id rev_rev_ident)
  finally have s: "s = rstrip s @ ?r"
    by (simp only: rstrip_def)
  have "rstrip s = ?l @ strip s"
    by (simp add: strip_def lstrip_def)
  with s have "s = ?l @ strip s @ ?r" by (metis append_assoc)
  moreover have "list_all is_space ?l" "list_all is_space ?r"
    by (auto simp: list_all_iff dest: set_takeWhileD)
  ultimately show ?thesis by blast
qed

lemma strip_ends:
  assumes "strip s \<noteq> []"
  shows "\<not> is_space (hd (strip s)) \<and> \<not> is_space (last (strip s))"
proof -
  let ?x = "rstrip s"
  from assms have x: "?x \<noteq> []" by (auto simp: strip_def lstrip_def)
  then have d: "dropWhile is_space (rev s) \<noteq> []" by (simp add: rstrip_def)
  have "last ?x = hd (dropWhile is_space (rev s))"
    using d by (simp add: rstrip_def last_rev)
  then have lastx: "\<not> is_space (last ?x)"
    using hd_dropWhile [OF d] by simp
  have hd: "\<not> is_space (hd (strip s))"
    using assms hd_dropWhile [of is_space ?x] by (simp add: strip_def lstrip_def)
  have "strip s = drop (length (takeWhile is_space ?x)) ?x"
    by (simp add: strip_def lstrip_def dropWhile_eq_drop)
  moreover from this assms have "length (takeWhile is_space ?x) < length ?x" by auto
  ultimately have "last (strip s) = last ?x" by (simp add: last_drop)
  with lastx hd show ?thesis by simp
qed

lemma strip_spaces:
  assumes "list_all is_space s"
  shows "strip s = []"
proof -
  have "dropWhile is_space xs = []" if "\<forall>x \<in> set xs. is_space x" for xs
    using that by (induction xs) simp_all
  from this [of "rev s"] assms have d: "dropWhile is_space (rev s) = []"
    by (simp add: list_all_iff)
  show ?thesis
    by (simp only: strip_def lstrip_def rstrip_def d rev.simps dropWhile.simps)
qed

lemma strip_sandwich:
  assumes "list_all is_space l" "list_all is_space r" "m \<noteq> []"
    "\<not> is_space (hd m)" "\<not> is_space (last m)"
  shows "strip (l @ m @ r) = m"
proof -
  have "dropWhile is_space (rev r @ rev m @ rev l) = dropWhile is_space (rev m @ rev l)"
  proof (rule dropWhile_append2)
    fix x assume "x \<in> set (rev r)"
    with assms(2) show "is_space x" by (simp add: list_all_iff)
  qed
  also have "\<dots> = rev m @ rev l"
  proof -
    from assms(3) obtain x xs where rm: "rev m = x # xs" by (cases "rev m") auto
    with assms(3) have "x = last m" by (metis hd_rev list.sel(1))
    with assms(5) have "dropWhile is_space ((x # xs) @ rev l) = (x # xs) @ rev l" by simp
    then show ?thesis unfolding rm .
  qed
  finally have "rstrip (l @ m @ r) = l @ m"
    by (simp add: rstrip_def)
  moreover have "dropWhile is_space (l @ m) = m"
  proof -
    from assms(3) obtain x xs where "m = x # xs" by (cases m) auto
    with assms(4) have "dropWhile is_space m = m" by simp
    moreover have "dropWhile is_space (l @ m) = dropWhile is_space m"
    proof (rule dropWhile_append2)
      fix x assume "x \<in> set l"
      with assms(1) show "is_space x" by (simp add: list_all_iff)
    qed
    ultimately show ?thesis by simp
  qed
  ultimately show ?thesis by (simp add: strip_def lstrip_def)
qed

lemma strip_sandwich_le:
  assumes "list_all is_space l" "list_all is_space r"
  shows "length (strip (l @ m @ r)) \<le> length m"
proof -
  from strip_decompose [of m] obtain l' r' where m: "m = l' @ strip m @ r'"
    and sp: "list_all is_space l'" "list_all is_space r'"
    by blast
  have whole: "l @ m @ r = (l @ l') @ strip m @ (r' @ r)"
    using m by (metis append_assoc)
  show ?thesis
  proof (cases "strip m = []")
    case True
    with whole sp assms have "list_all is_space (l @ m @ r)" by simp
    then show ?thesis by (simp add: strip_spaces)
  next
    case False
    from strip_ends [OF False] False sp assms
    have "strip ((l @ l') @ strip m @ (r' @ r)) = strip m"
      by (intro strip_sandwich) simp_all
    then have "strip (l @ m @ r) = strip m" by (simp only: whole)
    then show ?thesis using length_strip [of m] by simp
  qed
qed

lemma short_stripped_iff:
  "length (strip t) < 10 \<longleftrightarrow>
     (\<exists>l m r. t = l @ m @ r \<and> list_all is_space l \<and> list_all is_space r \<and> length m < 10)"
proof
  assume "length (strip t) < 10"
  with strip_decompose [of t] show "\<exists>l m r. t = l @ m @ r \<and> list_all is_space l
      \<and> list_all is_space r \<and> length m < 10"
    by blast
next
  assume "\<exists>l m r. t = l @ m @ r \<and> list_all is_space l \<and> list_all is_space r \<and> length m < 10"
  then obtain l m r where "t = l @ m @ r" "list_all is_space l" "list_all is_space r"
    "length m < 10"
    by blast
  with strip_sandwich_le [of l r m] show "length (strip t) < 10" by simp
qed

lemma page_stripped_iff:
  "re_match_anchored page_pattern (strip t) \<longleftrightarrow>
     (\<exists>l b r. t = l @ lit ''(Page: '' @ b @ [41] @ r \<and> list_all is_space l
        \<and> list_all is_space r \<and> 10 \<notin> set b)"
proof
  assume "re_match_anchored page_pattern (strip t)"
  then obtain b where b: "10 \<notin> set b"
    and t: "strip t = lit ''(Page: '' @ b @ [41] \<or> strip t = lit ''(Page: '' @ b @ [41, 10]"
    unfolding re_match_page_iff by blast
  from t have ne: "strip t \<noteq> []" by (auto simp: lit_def)
  have "strip t \<noteq> lit ''(Page: '' @ b @ [41, 10]"
  proof
    assume "strip t = lit ''(Page: '' @ b @ [41, 10]"
    then have "last (strip t) = 10" by simp
    with strip_ends [OF ne] show False by (simp add: is_space_def)
  qed
  with t have "strip t = lit ''(Page: '' @ b @ [41]" by simp
  with strip_decompose [of t] b
  show "\<exists>l b r. t = l @ lit ''(Page: '' @ b @ [41] @ r \<and> list_all is_space l
        \<and> list_all is_space r \<and> 10 \<notin> set b"
    by (metis append_assoc)
next
  assume "\<exists>l b r. t = l @ lit ''(Page: '' @ b @ [41] @ r \<and> list_all is_space l
        \<and> list_all is_space r \<and> 10 \<notin> set b"
  then obtain l b r where t: "t = l @ (lit ''(Page: '' @ b @ [41]) @ r"
    and sp: "list_all is_space l" "list_all is_space r" and b: "10 \<notin> set b"
    by auto
  have "strip t = lit ''(Page: '' @ b @ [41]"
    unfolding t using sp
    by (intro strip_sandwich) (simp_all add: lit_def is_space_def)
  with b show "re_match_anchored page_pattern (strip t)"
    unfolding re_match_page_iff by blast
qed

lemma is_junk_iff:
  "is_junk (PStr text) \<longleftrightarrow>
     (\<exists>l m r. text = l @ m @ r \<and> list_all is_space l \<and> list_all is_space r \<and> length m < 10)
     \<or> (\<exists>a b c. text = a @ [91] @ b @ [93] @ c \<and> 10 \<notin> set b)
     \<or> (\<exists>a b c. text = a @ [123] @ b @ [125] @ c \<and> 10 \<notin> set b)
     \<or> (\<exists>l b r. text = l @ lit ''(Page: '' @ b @ [41] @ r \<and> list_all is_space l
           \<and> list_all is_space r \<and> 10 \<notin> set b)"
proof -
  have "text = [] \<Longrightarrow> length (strip text) < 10"
    by (simp add: strip_def lstrip_def rstrip_def)
  then have "is_junk (PStr text) \<longleftrightarrow> length (strip text) < 10
      \<or> re_search placeholder_pattern text \<or> re_match_anchored page_pattern (strip text)"
    by auto
  also have "\<dots> \<longleftrightarrow>
     (\<exists>l m r. text = l @ m @ r \<and> list_all is_space l \<and> list_all is_space r \<and> length m < 10)
     \<or> (\<exists>a b c. text = a @ [91] @ b @ [93] @ c \<and> 10 \<notin> set b)
     \<or> (\<exists>a b c. text = a @ [123] @ b @ [125] @ c \<and> 10 \<notin> set b)
     \<or> (\<exists>l b r. text = l @ lit ''(Page: '' @ b @ [41] @ r \<and> list_all is_space l
           \<and> list_all is_space r \<and> 10 \<notin> set b)"
    unfolding short_stripped_iff page_stripped_iff re_search_placeholder_iff by blast
  finally show ?thesis .
qed

subsection \<open>Where the records come from\<close>

lemma clean_chunks_origin:
  "clean_chunks items = Inr cl \<Longrightarrow> c \<in> set cl \<Longrightarrow> PDict c \<in> set items"
proof (induction items arbitrary: cl rule: clean_chunks.induct)
  case 1
  then show ?case by simp
next
  case (2 chunk rest)
  then show ?case
    by (auto split: sum.splits if_splits)
qed simp_all

lemma py_iter_clean_list:
  assumes "py_iter chunks = Inr items" "clean_chunks items = Inr cl" "cl \<noteq> []"
  shows "chunks = PList items"
proof (cases chunks)
  case (PList xs)
  with assms(1) show ?thesis by simp
next
  case (PDict kvs)
  with assms show ?thesis by (cases kvs) auto
next
  case (PStr s)
  with assms show ?thesis by (cases s) auto
qed (use assms in simp_all)

lemma index_file_pres_origin:
  assumes batch: "\<And>items cl i st. content = Loaded (PList items) \<Longrightarrow> clean_chunks items = Inr cl
            \<Longrightarrow> i < length cl \<Longrightarrow> P st \<Longrightarrow> P (index_batch add_ok fn cl i st)"
    and say: "\<And>m st. P st \<Longrightarrow> P (say m st)"
    and skip: "\<And>st n. P st \<Longrightarrow> P (st\<lparr>skipped_files_count := n\<rparr>)"
    and st: "P st" and res: "index_file add_ok fn content st = Inr st'"
  shows "P st'"
proof -
  define s0 where "s0 = say (MsgProcessing fn) st"
  have P0: "P s0" unfolding s0_def by (rule say [OF st])
  have skipped: "P ((say m s)\<lparr>skipped_files_count := n\<rparr>)" if "P s" for m s n
    by (rule skip [OF say [OF that]])
  show ?thesis
  proof (cases content)
    case ReadFailed
    with res have "st' = (say (MsgReadError fn) s0)\<lparr>skipped_files_count := skipped_files_count s0 + 1\<rparr>"
      by (simp add: index_file_def Let_def s0_def)
    then show ?thesis using skipped [OF P0] by simp
  next
    case ReadRaised
    with res show ?thesis by (simp add: index_file_def)
  next
    case (Loaded chunks)
    show ?thesis
    proof (cases "truthy chunks")
      case False
      with res Loaded
      have "st' = (say (MsgNoContent fn) s0)\<lparr>skipped_files_count := skipped_files_count s0 + 1\<rparr>"
        by (simp add: index_file_def Let_def s0_def)
      then show ?thesis using skipped [OF P0] by simp
    next
      case True
      with res Loaded obtain items cl where
        items: "py_iter chunks = Inr items" and cl: "clean_chunks items = Inr cl"
        by (auto simp: index_file_def Let_def split: sum.splits)
      define st1 where "st1 = (if length items - length cl > 0
          then say (MsgRemoved (length items - length cl)) s0 else s0)"
      have P1: "P st1"
        unfolding st1_def using P0 say [OF P0] by simp
      show ?thesis
      proof (cases "cl = []")
        case True
        with res Loaded \<open>truthy chunks\<close> items cl
        have "st' = (say (MsgNoValid fn) st1)\<lparr>skipped_files_count := skipped_files_count st1 + 1\<rparr>"
          by (auto simp: index_file_def Let_def st1_def s0_def)
        then show ?thesis using skipped [OF P1] by simp
      next
        case False
        from py_iter_clean_list [OF items cl False] Loaded
        have origin: "content = Loaded (PList items)" by simp
        from res Loaded \<open>truthy chunks\<close> items cl False
        have "st' = index_batches add_ok fn cl 0 st1"
          by (auto simp: index_file_def Let_def st1_def s0_def)
        moreover have "P (index_batches add_ok fn cl 0 st1)"
        proof (rule index_batches_pres [where P = P, OF _ P1])
          fix i st
          assume "i < length cl" "P st"
          then show "P (index_batch add_ok fn cl i st)"
            by (rule batch [OF origin cl])
        qed
        ultimately show ?thesis by simp
      qed
    qed
  qed
qed

lemma index_files_pres_origin:
  assumes batch: "\<And>fn items cl i st. (fn, Loaded (PList items)) \<in> set entries
            \<Longrightarrow> clean_chunks items = Inr cl
            \<Longrightarrow> i < length cl \<Longrightarrow> P st \<Longrightarrow> P (index_batch add_ok fn cl i st)"
    and say: "\<And>m st. P st \<Longrightarrow> P (say m st)"
    and skip: "\<And>st n. P st \<Longrightarrow> P (st\<lparr>skipped_files_count := n\<rparr>)"
    and sub: "set files \<subseteq> set entries"
    and st: "P st"
  shows "P (fst (index_files add_ok files st))"
  using sub st
proof (induction files arbitrary: st)
  case Nil
  then show ?case by simp
next
  case (Cons f files)
  obtain fn content where f: "f = (fn, content)" by (cases f)
  from Cons.prems(1) f have mem: "(fn, content) \<in> set entries" and sub': "set files \<subseteq> set entries"
    by auto
  show ?case
  proof (cases "index_file add_ok fn content st")
    case (Inl e)
    have "P (say (MsgProcessing fn) st)" by (rule say [OF Cons.prems(2)])
    with f Inl show ?thesis by simp
  next
    case (Inr st')
    have "P st'"
    proof (rule index_file_pres_origin [where P = P, OF _ say skip Cons.prems(2) Inr])
      fix items cl i st
      assume "content = Loaded (PList items)" "clean_chunks items = Inr cl" "i < length cl" "P st"
      with mem show "P (index_batch add_ok fn cl i st)"
        by (intro batch [of fn items cl i st]) simp_all
    qed
    from Cons.IH [OF sub' this] f Inr show ?thesis by simp
  qed
qed

lemma run_pres_origin:
  assumes batch: "\<And>entries fn items cl i st. dir = Some entries
            \<Longrightarrow> (fn, Loaded (PList items)) \<in> set entries
            \<Longrightarrow> clean_chunks items = Inr cl
            \<Longrightarrow> i < length cl \<Longrightarrow> P st \<Longrightarrow> P (index_batch add_ok fn cl i st)"
    and say: "\<And>m st. P st \<Longrightarrow> P (say m st)"
    and skip: "\<And>st n. P st \<Longrightarrow> P (st\<lparr>skipped_files_count := n\<rparr>)"
    and init: "P initial_state"
  shows "P (fst (embed_and_index_documents add_ok dir))"
proof (cases dir)
  case None
  have "P (say MsgDirMissing initial_state)" by (rule say [OF init])
  with None show ?thesis
    by (simp add: embed_and_index_documents_def)
next
  case (Some entries)
  define files where "files = filter (\<lambda>(f, content). endswith f (lit ''.json'')) entries"
  define st0 where "st0 = say (MsgFound (length files)) initial_state"
  have P0: "P st0" unfolding st0_def by (rule say [OF init])
  have sub: "set files \<subseteq> set entries" unfolding files_def by auto
  have P: "P (fst (index_files add_ok files st0))"
    using batch [OF Some] say skip sub P0
    by (rule index_files_pres_origin [where P = P and entries = entries])
  obtain st r where r: "index_files add_ok files st0 = (st, r)"
    by (cases "index_files add_ok files st0")
  with P have Pst: "P st" by simp
  show ?thesis
  proof (cases r)
    case None
    define st1 where "st1 = say MsgComplete st"
    define st2 where "st2 = (if skipped_files_count st1 > 0
        then say (MsgSkipped (skipped_files_count st1)) st1 else st1)"
    have P1: "P st1" unfolding st1_def by (rule say [OF Pst])
    have P2: "P st2" unfolding st2_def using P1 say [OF P1] by simp
    have "fst (embed_and_index_documents add_ok dir) = say (MsgTotal (total_vectors_added st2)) st2"
      using Some r None
      by (simp add: embed_and_index_documents_def Let_def files_def st0_def st1_def st2_def)
    then show ?thesis using say [OF P2] by simp
  next
    case (Some e)
    with \<open>dir = Some entries\<close> r Pst show ?thesis
      by (simp add: embed_and_index_documents_def Let_def files_def st0_def)
  qed
qed

lemma attempted_from_chunk:
  "\<forall>r \<in> set (attempted (fst (embed_and_index_documents add_ok dir))). from_chunk_of dir r"
proof (rule run_pres_origin [where P = "\<lambda>st. \<forall>r \<in> set (attempted st). from_chunk_of dir r"])
  fix entries items and fn :: pystr and cl :: "(pystr \<times> pyval) list list" and i st
  assume dir: "dir = Some entries" and mem: "(fn, Loaded (PList items)) \<in> set entries"
    and cl: "clean_chunks items = Inr cl"
    and st: "\<forall>r \<in> set (attempted st). from_chunk_of dir r"
  have "from_chunk_of dir (make_record fn i j (take BATCH_SIZE (drop i cl) ! j))"
    if "j < length (take BATCH_SIZE (drop i cl))" for j
  proof -
    have "take BATCH_SIZE (drop i cl) ! j \<in> set (take BATCH_SIZE (drop i cl))"
      using that by (rule nth_mem)
    then have c: "take BATCH_SIZE (drop i cl) ! j \<in> set cl"
      by (meson in_set_dropD in_set_takeD)
    from clean_chunks_origin [OF cl c] clean_chunks_not_junk [OF cl] c dir mem
    show ?thesis unfolding from_chunk_of_def by blast
  qed
  with st show "\<forall>r \<in> set (attempted (index_batch add_ok fn cl i st)). from_chunk_of dir r"
    by (auto simp: attempted_index_batch)
qed simp_all

lemma no_placeholder_across_line:
  assumes "93 \<notin> set u" "91 \<notin> set v" "123 \<notin> set u" "123 \<notin> set v"
  shows "\<not> re_search placeholder_pattern (u @ 10 # v)"
  unfolding re_search_placeholder_iff
  using assms
  by (auto simp: append_eq_append_conv2 append_eq_Cons_conv Cons_eq_append_conv)

lemma line_break_not_junk: "\<not> is_junk (PStr line_break_text)"
proof -
  have "\<not> re_search placeholder_pattern (lit ''see [na'' @ 10 # lit ''me] in the lease'')"
    by (rule no_placeholder_across_line) (simp_all add: lit_def)
  then have a: "\<not> re_search placeholder_pattern line_break_text"
    by (simp add: line_break_text_def)
  have "\<not> re_match_anchored page_pattern (strip line_break_text)"
  proof
    assume "re_match_anchored page_pattern (strip line_break_text)"
    then have "40 \<in> set (strip line_break_text)"
      unfolding re_match_page_iff by (auto simp: lit_def)
    with set_strip [of line_break_text] show False
      by (auto simp: line_break_text_def lit_def)
  qed
  moreover have "\<not> length (strip line_break_text) < 10"
    by (simp add: line_break_text_def lit_def strip_def lstrip_def rstrip_def is_space_def)
  moreover have "line_break_text \<noteq> []" by (simp add: line_break_text_def lit_def)
  ultimately show ?thesis using a by simp
qed

lemma rec_text_str:
  assumes "\<not> is_junk (dict_get chunk (lit ''text''))"
  shows "\<exists>t. dict_get chunk (lit ''text'') = PStr t \<and> rec_text (make_record fn i j chunk) = PStr t
           \<and> \<not> is_junk (PStr t)"
proof -
  from not_junk_is_str [OF assms] obtain t where t: "dict_get chunk (lit ''text'') = PStr t"
    by blast
  from assms have "\<not> is_junk (PStr t)" unfolding t .
  moreover from rec_text_survivor [OF assms, of fn i j]
  have "rec_text (make_record fn i j chunk) = PStr t" unfolding t .
  ultimately show ?thesis using t by blast
qed

lemma metadata_make_record:
  "rec_metadata (make_record fn i j chunk) =
        [(lit ''document_name'',
            if dict_get chunk (lit ''document_name'') = PNone then PStr []
            else dict_get chunk (lit ''document_name'')),
         (lit ''page_number'',
            if dict_get chunk (lit ''page_number'') = PNone then PInt 0
            else dict_get chunk (lit ''page_number'')),
         (lit ''text'',
            if dict_get chunk (lit ''text'') = PNone then PStr []
            else dict_get chunk (lit ''text''))]"
proof -
  have pn: "lit ''page_number'' \<noteq> lit ''document_name''" "lit ''text'' \<noteq> lit ''page_number''"
    by (simp_all add: lit_def)
  show ?thesis
    unfolding make_record_def metadata_clean_def metadata_raw_def clean_value_def
    using pn by simp
qed


subsection \<open>The claims\<close>

text \<open>
  C1, as amended. A string is junk exactly when fewer than 10 characters are left once
  the whitespace around it is taken away, or it holds \<^verbatim>\<open>[\<close> and later, with no line
  break between, \<^verbatim>\<open>]\<close> (likewise \<^verbatim>\<open>{\<close> and \<^verbatim>\<open>}\<close>), or it is, between whitespace,
  \<^verbatim>\<open>(Page: \<close>, a run with no line break and \<^verbatim>\<open>)\<close>; so every string under 10
  characters is junk, and so is every value that is not a string. Every record that a run
  embeds is built from a chunk of a processed file whose text the filter let through,
  and what is inserted is among what is embedded.
\<close>

theorem junk_is_never_indexed:
  "(is_junk (PStr text) \<longleftrightarrow>
       (\<exists>l m r. text = l @ m @ r \<and> list_all is_space l \<and> list_all is_space r \<and> length m < 10)
     \<or> (\<exists>a b c. text = a @ [91] @ b @ [93] @ c \<and> 10 \<notin> set b)
     \<or> (\<exists>a b c. text = a @ [123] @ b @ [125] @ c \<and> 10 \<notin> set b)
     \<or> (\<exists>l b r. text = l @ lit ''(Page: '' @ b @ [41] @ r \<and> list_all is_space l
           \<and> list_all is_space r \<and> 10 \<notin> set b))
   \<and> (length text < 10 \<longrightarrow> is_junk (PStr text))
   \<and> ((\<forall>s. v \<noteq> PStr s) \<longrightarrow> is_junk v)
   \<and> (\<forall>r \<in> set (attempted (fst (embed_and_index_documents add_ok dir))).
         \<exists>entries file_name items chunk t.
            dir = Some entries \<and> (file_name, Loaded (PList items)) \<in> set entries
          \<and> PDict chunk \<in> set items \<and> dict_get chunk (lit ''text'') = PStr t
          \<and> rec_text r = PStr t \<and> \<not> is_junk (PStr t))
   \<and> set (inserted (fst (embed_and_index_documents add_ok dir)))
        \<subseteq> set (attempted (fst (embed_and_index_documents add_ok dir)))"
proof (intro conjI)
  show "is_junk (PStr text) \<longleftrightarrow>
       (\<exists>l m r. text = l @ m @ r \<and> list_all is_space l \<and> list_all is_space r \<and> length m < 10)
     \<or> (\<exists>a b c. text = a @ [91] @ b @ [93] @ c \<and> 10 \<notin> set b)
     \<or> (\<exists>a b c. text = a @ [123] @ b @ [125] @ c \<and> 10 \<notin> set b)
     \<or> (\<exists>l b r. text = l @ lit ''(Page: '' @ b @ [41] @ r \<and> list_all is_space l
           \<and> list_all is_space r \<and> 10 \<notin> set b)"
    by (rule is_junk_iff)
  show "length text < 10 \<longrightarrow> is_junk (PStr text)"
    using length_strip [of "text"] by simp
  show "(\<forall>s. v \<noteq> PStr s) \<longrightarrow> is_junk v"
    by (cases v) simp_all
  show "\<forall>r \<in> set (attempted (fst (embed_and_index_documents add_ok dir))).
         \<exists>entries file_name items chunk t.
            dir = Some entries \<and> (file_name, Loaded (PList items)) \<in> set entries
          \<and> PDict chunk \<in> set items \<and> dict_get chunk (lit ''text'') = PStr t
          \<and> rec_text r = PStr t \<and> \<not> is_junk (PStr t)"
  proof
    fix r
    assume "r \<in> set (attempted (fst (embed_and_index_documents add_ok dir)))"
    with attempted_from_chunk [of add_ok dir] have "from_chunk_of dir r" by blast
    then obtain entries file_name items chunk i j where
      o: "dir = Some entries" "(file_name, Loaded (PList items)) \<in> set entries"
        "PDict chunk \<in> set items"
      and nj: "\<not> is_junk (dict_get chunk (lit ''text''))"
      and r: "r = make_record file_name i j chunk"
      unfolding from_chunk_of_def by blast
    from rec_text_str [OF nj, of file_name i j] r o
    show "\<exists>entries file_name items chunk t.
            dir = Some entries \<and> (file_name, Loaded (PList items)) \<in> set entries
          \<and> PDict chunk \<in> set items \<and> dict_get chunk (lit ''text'') = PStr t
          \<and> rec_text r = PStr t \<and> \<not> is_junk (PStr t)"
      by blast
  qed
  show "set (inserted (fst (embed_and_index_documents add_ok dir)))
        \<subseteq> set (attempted (fst (embed_and_index_documents add_ok dir)))"
    by (rule inserted_subset_attempted)
qed


theorem junk_is_never_indexed_witness:
  "length padded_page_text = 20 \<and> is_junk (PStr padded_page_text)
   \<and> length (lit ''see [name] in the lease'') = 23
   \<and> is_junk (PStr (lit ''see [name] in the lease''))
   \<and> is_junk (PStr (lit ''[TBD]''))
   \<and> attempted (fst (embed_and_index_documents (\<lambda>k. True) example_dir)) \<noteq> []
   \<and> list_all (\<lambda>r. \<not> is_junk (rec_text r))
        (attempted (fst (embed_and_index_documents (\<lambda>k. True) example_dir)))"
proof -
  note inst = junk_is_never_indexed [of _ PNone "\<lambda>k. True" example_dir]
  have page: "padded_page_text = lit ''  '' @ lit ''(Page: '' @ lit ''12 of 40'' @ [41] @ lit ''  ''"
    "list_all is_space (lit ''  '')" "10 \<notin> set (lit ''12 of 40'')"
    by (simp_all add: padded_page_text_def lit_def is_space_def)
  from page have "\<exists>l b r. padded_page_text = l @ lit ''(Page: '' @ b @ [41] @ r
      \<and> list_all is_space l \<and> list_all is_space r \<and> 10 \<notin> set b"
    by blast
  with inst [of padded_page_text, THEN conjunct1]
  have a: "is_junk (PStr padded_page_text)" by blast
  have "lit ''see [name] in the lease''
          = lit ''see '' @ [91] @ lit ''name'' @ [93] @ lit '' in the lease''"
    "10 \<notin> set (lit ''name'')"
    by (simp_all add: lit_def)
  then have "\<exists>a b c. lit ''see [name] in the lease'' = a @ [91] @ b @ [93] @ c \<and> 10 \<notin> set b"
    by blast
  with inst [of "lit ''see [name] in the lease''", THEN conjunct1]
  have d: "is_junk (PStr (lit ''see [name] in the lease''))" by blast
  have e: "length (lit ''see [name] in the lease'') = 23" by (simp add: lit_def)
  have short: "length (lit ''[TBD]'') < 10" by (simp add: lit_def)
  from inst [of "lit ''[TBD]''", THEN conjunct2, THEN conjunct1] short
  have b: "is_junk (PStr (lit ''[TBD]''))" by blast
  have some: "attempted (fst (embed_and_index_documents (\<lambda>k. True) example_dir)) \<noteq> []"
    by (simp add: example_attempted)
  have "\<not> is_junk (rec_text r)"
    if "r \<in> set (attempted (fst (embed_and_index_documents (\<lambda>k. True) example_dir)))" for r
  proof -
    from inst [of "[]", THEN conjunct2, THEN conjunct2, THEN conjunct2, THEN conjunct1] that
    obtain t where t: "rec_text r = PStr t" and nj: "\<not> is_junk (PStr t)" by blast
    show ?thesis unfolding t by (rule nj)
  qed
  then have c: "list_all (\<lambda>r. \<not> is_junk (rec_text r))
        (attempted (fst (embed_and_index_documents (\<lambda>k. True) example_dir)))"
    unfolding list_all_iff by blast
  have "length padded_page_text = 20" by (simp add: padded_page_text_def lit_def)
  with a b some c d e show ?thesis by blast
qed

text \<open>
  C1, as stated, fails: this text holds \<^verbatim>\<open>[\<close> and later \<^verbatim>\<open>]\<close>, with a line break
  between them; it is not junk, and a run embeds and inserts it.
\<close>

theorem bracket_across_lines_counterexample:
  "line_break_text
     = lit ''see '' @ [91] @ (lit ''na'' @ [10] @ lit ''me'') @ [93] @ lit '' in the lease''
   \<and> \<not> is_junk (PStr line_break_text)
   \<and> map rec_text (inserted (fst (embed_and_index_documents always_ok
        (Some [(lit ''a.json'', json_objects line_break_chunks)]))))
       = [PStr line_break_text]"
proof -
  have a: "line_break_text
     = lit ''see '' @ [91] @ (lit ''na'' @ [10] @ lit ''me'') @ [93] @ lit '' in the lease''"
    by (simp add: line_break_text_def lit_def)
  have b: "map rec_text (inserted (fst (embed_and_index_documents always_ok
        (Some [(lit ''a.json'', json_objects line_break_chunks)]))))
       = [PStr line_break_text]"
    using line_break_not_junk
    by (simp del: is_junk.simps
        add: line_break_chunks_def line_break_text_def always_ok_def run_eval)
  from a b line_break_not_junk show ?thesis by blast
qed





text \<open>
  C2. Every record in the store was built from a chunk of a processed file. Its metadata
  are the three fields of that chunk, where a \<^verbatim>\<open>None\<close> page number has become 0, a
  \<^verbatim>\<open>None\<close> document name or text has become the empty string, and any other value is
  unchanged; none of the values is \<^verbatim>\<open>None\<close>.
\<close>

theorem metadata_never_null:
  "\<forall>r \<in> set (inserted (fst (embed_and_index_documents add_ok dir))).
     \<exists>entries file_name items chunk.
        dir = Some entries \<and> (file_name, Loaded (PList items)) \<in> set entries
      \<and> PDict chunk \<in> set items
      \<and> rec_text r = dict_get chunk (lit ''text'')
      \<and> rec_metadata r =
          [(lit ''document_name'',
              if dict_get chunk (lit ''document_name'') = PNone then PStr []
              else dict_get chunk (lit ''document_name'')),
           (lit ''page_number'',
              if dict_get chunk (lit ''page_number'') = PNone then PInt 0
              else dict_get chunk (lit ''page_number'')),
           (lit ''text'',
              if dict_get chunk (lit ''text'') = PNone then PStr []
              else dict_get chunk (lit ''text''))]
      \<and> (\<forall>kv \<in> set (rec_metadata r). snd kv \<noteq> PNone)"
proof
  fix r
  assume "r \<in> set (inserted (fst (embed_and_index_documents add_ok dir)))"
  with inserted_subset_attempted attempted_from_chunk [of add_ok dir]
  have "from_chunk_of dir r" by blast
  then obtain entries file_name items chunk i j where
    o: "dir = Some entries" "(file_name, Loaded (PList items)) \<in> set entries"
      "PDict chunk \<in> set items"
    and nj: "\<not> is_junk (dict_get chunk (lit ''text''))"
    and r: "r = make_record file_name i j chunk"
    unfolding from_chunk_of_def by blast
  have rt: "rec_text r = dict_get chunk (lit ''text'')"
    unfolding r by (rule rec_text_survivor [OF nj])
  note meta = metadata_make_record [of file_name i j chunk, folded r]
  have "\<forall>kv \<in> set (rec_metadata r). snd kv \<noteq> PNone"
    unfolding meta by simp
  with o rt meta
  show "\<exists>entries file_name items chunk.
        dir = Some entries \<and> (file_name, Loaded (PList items)) \<in> set entries
      \<and> PDict chunk \<in> set items
      \<and> rec_text r = dict_get chunk (lit ''text'')
      \<and> rec_metadata r =
          [(lit ''document_name'',
              if dict_get chunk (lit ''document_name'') = PNone then PStr []
              else dict_get chunk (lit ''document_name'')),
           (lit ''page_number'',
              if dict_get chunk (lit ''page_number'') = PNone then PInt 0
              else dict_get chunk (lit ''page_number'')),
           (lit ''text'',
              if dict_get chunk (lit ''text'') = PNone then PStr []
              else dict_get chunk (lit ''text''))]
      \<and> (\<forall>kv \<in> set (rec_metadata r). snd kv \<noteq> PNone)"
    by blast
qed

lemma example_inserted:
  "inserted (fst (embed_and_index_documents (\<lambda>k. True) example_dir)) =
     [make_record (lit ''a.json'') 0 0
        [(lit ''text'', PStr (lit ''The lease began in 2019.'')),
         (lit ''document_name'', PStr (lit ''a.pdf'')), (lit ''page_number'', PInt 1)],
      make_record (lit ''a.json'') 0 1
        [(lit ''text'', PStr (lit ''Rent was due monthly.'')),
         (lit ''document_name'', PNone), (lit ''page_number'', PNone)]]"
  using example_not_junk example_junk
  by (simp del: is_junk.simps add: run_eval)

theorem metadata_never_null_witness:
  "map rec_metadata (inserted (fst (embed_and_index_documents (\<lambda>k. True) example_dir))) =
     [[(lit ''document_name'', PStr (lit ''a.pdf'')), (lit ''page_number'', PInt 1),
       (lit ''text'', PStr (lit ''The lease began in 2019.''))],
      [(lit ''document_name'', PStr []), (lit ''page_number'', PInt 0),
       (lit ''text'', PStr (lit ''Rent was due monthly.''))]]
   \<and> list_all (\<lambda>r. list_all (\<lambda>kv. snd kv \<noteq> PNone) (rec_metadata r))
        (inserted (fst (embed_and_index_documents (\<lambda>k. True) example_dir)))"
proof -
  have "map rec_metadata (inserted (fst (embed_and_index_documents (\<lambda>k. True) example_dir))) =
     [[(lit ''document_name'', PStr (lit ''a.pdf'')), (lit ''page_number'', PInt 1),
       (lit ''text'', PStr (lit ''The lease began in 2019.''))],
      [(lit ''document_name'', PStr []), (lit ''page_number'', PInt 0),
       (lit ''text'', PStr (lit ''Rent was due monthly.''))]]"
    unfolding example_inserted
    by (simp add: make_record_def metadata_clean_def metadata_raw_def clean_value_def
        dict_get_def lit_def)
  moreover from metadata_never_null [of "\<lambda>k. True" example_dir]
  have "list_all (\<lambda>r. list_all (\<lambda>kv. snd kv \<noteq> PNone) (rec_metadata r))
        (inserted (fst (embed_and_index_documents (\<lambda>k. True) example_dir)))"
    unfolding list_all_iff by blast
  ultimately show ?thesis by blast
qed

subsection \<open>The chunker and the ingester\<close>

lemma first_str_key_find:
  "first_str_key d keys =
     (case find (\<lambda>key. is_str (dict_get d key)) keys of
        None \<Rightarrow> [] | Some key \<Rightarrow> str_of (dict_get d key))"
  by (induction keys) (auto simp: is_str_def str_of_def split: pyval.splits)

lemma enrich_text: "dict_get (enrich elements t) (lit ''text'') = PStr t"
  by (simp add: enrich_def Let_def dict_get_def)

lemma enrich_all_texts:
  "map (\<lambda>p. dict_get p (lit ''text'')) (enrich_all elements items)
     = map PStr (filter (\<lambda>t. t \<noteq> []) (map extract_text items))"
  by (induction items) (simp_all add: Let_def enrich_text)

lemma chunk_Some:
  assumes "chunk_batch_into_propositions can_print json_loads reply elements
             = (Inr (Some props), out)"
  shows "\<exists>items. props = enrich_all elements items"
  using assms
  unfolding chunk_batch_into_propositions_def body_error_handler_def json_error_handler_def
    Let_def
  by (auto split: http_reply.splits pyval.splits loads_result.splits sum.splits
      body_error.splits if_splits)

text \<open>
  C3. A plain string item gives that string; a dict item gives the value of the first of the
  keys \<^verbatim>\<open>proposition\<close>, \<^verbatim>\<open>statement\<close>, \<^verbatim>\<open>text\<close> that holds a string; any other
  item gives no text. The propositions returned are those of the items whose text is not
  empty, in order, so the \<^verbatim>\<open>text\<close> of every proposition that the chunker returns is a
  string that is not empty.
\<close>

theorem propositions_have_text:
  "extract_text (PStr s) = s
   \<and> extract_text (PDict d) =
       (case find (\<lambda>key. is_str (dict_get d key))
               [lit ''proposition'', lit ''statement'', lit ''text''] of
          None \<Rightarrow> [] | Some key \<Rightarrow> str_of (dict_get d key))
   \<and> ((\<forall>s. item \<noteq> PStr s) \<and> (\<forall>d. item \<noteq> PDict d) \<longrightarrow> extract_text item = [])
   \<and> map (\<lambda>p. dict_get p (lit ''text'')) (enrich_all elements items)
       = map PStr (filter (\<lambda>t. t \<noteq> []) (map extract_text items))
   \<and> (chunk_batch_into_propositions can_print json_loads reply elements
          = (Inr (Some props), out)
        \<longrightarrow> (\<forall>p \<in> set props. \<exists>t. dict_get p (lit ''text'') = PStr t \<and> t \<noteq> []))"
proof (intro conjI impI)
  show "extract_text (PStr s) = s" by simp
  show "extract_text (PDict d) =
       (case find (\<lambda>key. is_str (dict_get d key))
               [lit ''proposition'', lit ''statement'', lit ''text''] of
          None \<Rightarrow> [] | Some key \<Rightarrow> str_of (dict_get d key))"
    by (simp only: extract_text.simps first_str_key_find)
  show "extract_text item = []" if "(\<forall>s. item \<noteq> PStr s) \<and> (\<forall>d. item \<noteq> PDict d)"
    using that by (cases item) simp_all
  show "map (\<lambda>p. dict_get p (lit ''text'')) (enrich_all elements items)
       = map PStr (filter (\<lambda>t. t \<noteq> []) (map extract_text items))"
    by (rule enrich_all_texts)
  show "\<forall>p \<in> set props. \<exists>t. dict_get p (lit ''text'') = PStr t \<and> t \<noteq> []"
    if "chunk_batch_into_propositions can_print json_loads reply elements
          = (Inr (Some props), out)"
  proof
    fix p
    assume p: "p \<in> set props"
    from chunk_Some [OF that] obtain its where its: "props = enrich_all elements its" by blast
    from p have "dict_get p (lit ''text'') \<in> set (map (\<lambda>p. dict_get p (lit ''text'')) props)"
      by simp
    then show "\<exists>t. dict_get p (lit ''text'') = PStr t \<and> t \<noteq> []"
      unfolding its enrich_all_texts by auto
  qed
qed

lemmas str_in_eval = str_in_def sublist_code prefix_code

lemma example_chunked:
  "chunk_batch_into_propositions utf8_console example_loads (example_reply (lit ''ok''))
       [example_element]
     = (Inr (Some example_propositions), [])"
  by (simp add: chunk_batch_into_propositions_def example_loads_def example_reply_def
      example_items_def example_element_def example_propositions_def dict_get_default_def
      dict_get_def enrich_def getattr_default_def Let_def str_in_eval lit_def)

theorem propositions_have_text_witness:
  "fst (chunk_batch_into_propositions utf8_console example_loads (example_reply (lit ''ok''))
          [example_element])
     = Inr (Some example_propositions)
   \<and> map extract_text example_items
       = [lit ''The lease began in 2019.'', lit ''Rent was due monthly.'', [], [], []]
   \<and> list_all (\<lambda>p. dict_get p (lit ''text'') \<noteq> PStr []) example_propositions"
proof -
  have a: "chunk_batch_into_propositions utf8_console example_loads (example_reply (lit ''ok''))
             [example_element]
     = (Inr (Some example_propositions), [])"
    by (rule example_chunked)
  have b: "\<forall>s. PInt 7 \<noteq> PStr s" "\<forall>d. PInt 7 \<noteq> PDict d" by simp_all
  from propositions_have_text
    [where item = "PInt 7" and elements = "[example_element]" and items = example_items
       and can_print = utf8_console and json_loads = example_loads
       and reply = "example_reply (lit ''ok'')" and props = example_propositions
       and out = "[]"] a b
  have "list_all (\<lambda>p. dict_get p (lit ''text'') \<noteq> PStr []) example_propositions"
    unfolding list_all_iff by fastforce
  moreover have "map extract_text example_items
       = [lit ''The lease began in 2019.'', lit ''Rent was due monthly.'', [], [], []]"
    by (simp add: example_items_def dict_get_def lit_def)
  ultimately show ?thesis using a by simp
qed

text \<open>
  What the chunker of \<^verbatim>\<open>cloud_utils.py\<close> gives, from what the chunker of
  \<^verbatim>\<open>chunker.py\<close> gives on the same reply and batch.
\<close>

lemma cloud_utils_result:
  "fst (cloud_utils_chunk_batch_into_propositions can_print json_loads reply elements)
     = (if debug_prints can_print reply
        then fst (chunk_batch_into_propositions can_print json_loads reply elements)
        else Inr None)"
  unfolding cloud_utils_chunk_batch_into_propositions_def chunk_batch_into_propositions_def
    debug_prints_def json_error_handler_def Let_def
  by (simp split: http_reply.splits pyval.splits loads_result.splits sum.splits)

text \<open>
  C10, as amended. The chunker of \<^verbatim>\<open>cloud_utils.py\<close> prints the \<^verbatim>\<open>response\<close> field
  of a reply whose body is a JSON object. On every batch and every reply for which that
  line can be printed (and on every reply that does not reach it), it gives what the
  chunker of \<^verbatim>\<open>chunker.py\<close> gives: the same list, the sentinel, or the same exception;
  only what they print differs.
\<close>

theorem chunkers_agree_when_debug_prints:
  assumes "debug_prints can_print reply"
  shows "fst (cloud_utils_chunk_batch_into_propositions can_print json_loads reply elements)
           = fst (chunk_batch_into_propositions can_print json_loads reply elements)"
  using assms by (simp add: cloud_utils_result)

theorem chunkers_agree_when_debug_prints_witness:
  "debug_prints utf8_console (example_reply (lit ''ok''))
   \<and> fst (cloud_utils_chunk_batch_into_propositions utf8_console example_loads
            (example_reply (lit ''ok'')) [example_element])
       = Inr (Some example_propositions)"
proof -
  have d: "debug_prints utf8_console (example_reply (lit ''ok''))"
    by (simp add: debug_prints_def example_reply_def dict_get_default_def utf8_console_def
        encodable_def lit_def)
  from chunkers_agree_when_debug_prints
    [of utf8_console "example_reply (lit ''ok'')" example_loads "[example_element]", OF d]
  show ?thesis using d by (simp add: example_chunked)
qed

text \<open>
  C10, as stated, fails: on a reply whose \<^verbatim>\<open>response\<close> field is JSON and holds a lone
  surrogate, with a console in UTF-8, the chunker of \<^verbatim>\<open>chunker.py\<close> returns the
  proposition and the one of \<^verbatim>\<open>cloud_utils.py\<close> returns the sentinel.
\<close>

theorem debug_print_counterexample:
  "fst (chunk_batch_into_propositions utf8_console surrogate_loads (example_reply surrogate_raw)
          [example_element])
     = Inr (Some [[(lit ''text'', PStr (lit ''The lease began in 2019.'' @ [55296])),
                   (lit ''document_name'', PStr (lit ''unknown'')),
                   (lit ''page_number'', PNone)]])
   \<and> fst (cloud_utils_chunk_batch_into_propositions utf8_console surrogate_loads
            (example_reply surrogate_raw) [example_element])
     = Inr None"
  by (simp add: chunk_batch_into_propositions_def cloud_utils_chunk_batch_into_propositions_def
      surrogate_loads_def surrogate_raw_def example_reply_def example_element_def
      dict_get_default_def dict_get_def enrich_def getattr_default_def Let_def str_in_eval
      utf8_console_def encodable_def lit_def)

text \<open>
  C9. The upload of a processed file needs \<^verbatim>\<open>get_r2_client\<close> and \<^verbatim>\<open>upload_to_r2\<close>,
  which \<^verbatim>\<open>ingest.py\<close> imports from \<^verbatim>\<open>cloud_utils\<close>. That module binds neither name, so
  the import at the top of \<^verbatim>\<open>ingest.py\<close> raises and no document is processed or uploaded.
\<close>

theorem ingest_cannot_import:
  "ingest_import_cloud_utils = Inl ImportError"
  by (simp add: ingest_import_cloud_utils_def import_from_def cloud_utils_names_def)

lemma gave_propositions_simps [simp]:
  "gave_propositions (Inr (Some ps))" "\<not> gave_propositions (Inr None)"
  "\<not> gave_propositions (Inl e)"
  by (simp_all add: gave_propositions_def)

lemma chunk_loop_calls:
  assumes "chunk_loop can_print json_loads llm els batch props calls = (r, calls')"
  shows "\<exists>new. calls' = calls @ new \<and> (\<not> gave_propositions r \<longrightarrow> new \<noteq> [])
     \<and> (\<forall>k < length new.
          (gave_propositions (call_result can_print json_loads llm (length calls + k) (new ! k))
             \<longleftrightarrow> \<not> (\<not> gave_propositions r \<and> Suc k = length new))
          \<and> (\<not> gave_propositions r \<and> Suc k = length new
               \<longrightarrow> call_result can_print json_loads llm (length calls + k) (new ! k) = r))"
  using assms
proof (induction els arbitrary: batch props calls)
  case Nil
  then show ?case by auto
next
  case (Cons el rest)
  let ?b = "batch @ [el]"
  show ?case
  proof (cases "length ?b \<ge> ingest_BATCH_SIZE \<or> rest = []")
    case False
    with Cons.prems
    have "chunk_loop can_print json_loads llm rest ?b props calls = (r, calls')"
      by (simp add: Let_def)
    from Cons.IH [OF this] show ?thesis .
  next
    case True
    note flush = this
    define cr where "cr = call_result can_print json_loads llm (length calls) ?b"
    show ?thesis
    proof (cases "gave_propositions cr")
      case False
      with flush Cons.prems have r: "r = cr" "calls' = calls @ [?b]"
        by (auto simp: Let_def cr_def call_result_def gave_propositions_def
            split: sum.splits option.splits)
      have "\<forall>k < length [?b].
          (gave_propositions (call_result can_print json_loads llm (length calls + k) ([?b] ! k))
             \<longleftrightarrow> \<not> (\<not> gave_propositions r \<and> Suc k = length [?b]))
          \<and> (\<not> gave_propositions r \<and> Suc k = length [?b]
               \<longrightarrow> call_result can_print json_loads llm (length calls + k) ([?b] ! k) = r)"
        using False r by (simp add: cr_def)
      with r show ?thesis by blast
    next
      case True
      then obtain ps where ps: "cr = Inr (Some ps)"
        by (auto simp: gave_propositions_def split: sum.splits option.splits)
      with flush Cons.prems
      have "chunk_loop can_print json_loads llm rest [] (props @ ps) (calls @ [?b]) = (r, calls')"
        by (auto simp: Let_def cr_def call_result_def)
      from Cons.IH [OF this] obtain new where new: "calls' = (calls @ [?b]) @ new"
        and some: "\<not> gave_propositions r \<longrightarrow> new \<noteq> []"
        and rest: "\<forall>k < length new.
          (gave_propositions
              (call_result can_print json_loads llm (length (calls @ [?b]) + k) (new ! k))
             \<longleftrightarrow> \<not> (\<not> gave_propositions r \<and> Suc k = length new))
          \<and> (\<not> gave_propositions r \<and> Suc k = length new
               \<longrightarrow> call_result can_print json_loads llm (length (calls @ [?b]) + k) (new ! k)
                     = r)"
        by blast
      have "(gave_propositions
                (call_result can_print json_loads llm (length calls + k) ((?b # new) ! k))
             \<longleftrightarrow> \<not> (\<not> gave_propositions r \<and> Suc k = length (?b # new)))
          \<and> (\<not> gave_propositions r \<and> Suc k = length (?b # new)
               \<longrightarrow> call_result can_print json_loads llm (length calls + k) ((?b # new) ! k) = r)"
        if k: "k < length (?b # new)" for k
      proof (cases k)
        case 0
        with some True show ?thesis by (auto simp: cr_def)
      next
        case (Suc j)
        with k have j: "j < length new" by simp
        have idx: "length calls + k = length (calls @ [?b]) + j" "(?b # new) ! k = new ! j"
          "Suc k = length (?b # new) \<longleftrightarrow> Suc j = length new"
          by (simp_all add: Suc)
        from rest [rule_format, OF j] show ?thesis
          unfolding idx by blast
      qed
      with new show ?thesis by (intro exI [of _ "?b # new"]) simp
    qed
  qed
qed

text \<open>
  When the chunker returns the sentinel and when an exception leaves it: the sentinel after
  a failed call, an error status, a body that is not JSON (unless \<^verbatim>\<open>response.json()\<close>
  raises the \<^verbatim>\<open>JSONDecodeError\<close> of the \<^verbatim>\<open>json\<close> module), and a \<^verbatim>\<open>response\<close> field
  that is not JSON and can be printed.
\<close>

lemma chunker_sentinel_or_exception:
  "(reply = PostFailed \<or> reply = HttpErrorStatus \<or> reply = BodyNotJson AsRequestException
      \<or> reply = BodyNotJson AsValueError
      \<or> (\<exists>rj raw. reply = JsonBody (PDict rj)
            \<and> dict_get_default rj (lit ''response'') (PStr (lit ''{}'')) = PStr raw
            \<and> json_loads raw = DecodeError
            \<and> can_print (dict_get_default rj (lit ''response'')
                            (PStr (lit ''No response text found.''))))
     \<longrightarrow> fst (chunk_batch_into_propositions can_print json_loads reply elements) = Inr None)
   \<and> (fst (chunk_batch_into_propositions can_print json_loads reply elements) = Inl e
        \<longleftrightarrow> reply = BodyNotJson AsJSONDecodeError \<and> e = JSONDecodeError
          \<or> (\<exists>rj raw. reply = JsonBody (PDict rj)
                \<and> dict_get_default rj (lit ''response'') (PStr (lit ''{}'')) = PStr raw
                \<and> json_loads raw = DecodeError
                \<and> \<not> can_print (dict_get_default rj (lit ''response'')
                                  (PStr (lit ''No response text found.'')))
                \<and> e = UnicodeEncodeError))"
  unfolding chunk_batch_into_propositions_def body_error_handler_def json_error_handler_def
    Let_def
  by (auto split: http_reply.splits pyval.splits loads_result.splits sum.splits
      body_error.splits)

text \<open>
  In \<^verbatim>\<open>process_document\<close>, a call of the chunker that gives no list is the last call
  made for the document; the document gets no local file and no upload, and an exception
  of the chunker leaves \<^verbatim>\<open>process_document\<close> as well.
\<close>

lemma failed_call_ends_document:
  assumes res: "res = process_document can_print json_loads llm makedirs_ok save file_name
                       partitioned r2_client"
    and k: "k < length (chunk_calls res)"
    and failed: "\<not> gave_propositions
                    (call_result can_print json_loads llm k (chunk_calls res ! k))"
  shows "Suc k = length (chunk_calls res) \<and> local_file res = NotAttempted
     \<and> uploaded res = None
     \<and> raised res = (case call_result can_print json_loads llm k (chunk_calls res ! k) of
                       Inl e \<Rightarrow> Some e | Inr v \<Rightarrow> None)"
proof -
  from k have calls: "chunk_calls res \<noteq> []" by auto
  then obtain elements where p: "partitioned = Partitioned elements"
    and pr: "can_print (PStr file_name)" and mk: "makedirs_ok"
    unfolding res process_document_def Let_def
    by (cases partitioned) (auto split: if_splits)
  obtain r calls where loop: "chunk_loop can_print json_loads llm elements [] [] [] = (r, calls)"
    by (cases "chunk_loop can_print json_loads llm elements [] [] []")
  have cc: "chunk_calls res = calls"
    using p pr mk loop unfolding res process_document_def Let_def
    by (auto split: sum.splits option.splits save_outcome.splits)
  from chunk_loop_calls [OF loop] cc
  have all: "\<forall>k < length calls.
          (gave_propositions (call_result can_print json_loads llm k (calls ! k))
             \<longleftrightarrow> \<not> (\<not> gave_propositions r \<and> Suc k = length calls))
          \<and> (\<not> gave_propositions r \<and> Suc k = length calls
               \<longrightarrow> call_result can_print json_loads llm k (calls ! k) = r)"
    by simp
  with k failed cc have last: "\<not> gave_propositions r" "Suc k = length calls"
    and r: "call_result can_print json_loads llm k (calls ! k) = r"
    by auto
  from last(1) have "local_file res = NotAttempted \<and> uploaded res = None
      \<and> raised res = (case r of Inl e \<Rightarrow> Some e | Inr v \<Rightarrow> None)"
    using p pr mk loop unfolding res process_document_def Let_def
    by (auto simp: gave_propositions_def split: sum.splits option.splits)
  with last(2) r cc show ?thesis by simp
qed

text \<open>
  C5. The docstring of the chunker says that it returns \<^verbatim>\<open>None\<close> on critical failure,
  and the claim says so for a \<^verbatim>\<open>response\<close> field that is not JSON. On such a field
  that ends in a lone surrogate, with a console in UTF-8, the handler prints the field,
  \<^verbatim>\<open>print\<close> raises, and the exception leaves the chunker and \<^verbatim>\<open>process_document\<close>.
\<close>

theorem chunker_raises_in_handler:
  "example_loads unprintable_raw = DecodeError
   \<and> fst (chunk_batch_into_propositions utf8_console example_loads (example_reply unprintable_raw)
            [example_element])
       = Inl UnicodeEncodeError
   \<and> raised (process_document utf8_console example_loads (\<lambda>k. example_reply unprintable_raw)
        True SaveReturned (lit ''a.pdf'') (Partitioned [example_element]) (None :: unit option))
       = Some UnicodeEncodeError"
  by (simp add: process_document_def chunk_batch_into_propositions_def json_error_handler_def
      example_loads_def example_reply_def unprintable_raw_def dict_get_default_def
      ingest_BATCH_SIZE_def utf8_console_def encodable_def Let_def lit_def)

lemma find_source_None: "find_source els t = None \<longleftrightarrow> (\<forall>el \<in> set els. \<not> matches el t)"
  by (induction els) (auto simp: matches_def split: option.splits)

lemma find_source_Some:
  "find_source els t = Some el \<longleftrightarrow>
     (\<exists>pre post. els = pre @ el # post \<and> matches el t \<and> (\<forall>e \<in> set pre. \<not> matches e t))"
proof (induction els)
  case Nil
  then show ?case by simp
next
  case (Cons a els)
  show ?case
  proof (cases "matches a t")
    case True
    then have "find_source (a # els) t = Some a"
      by (auto simp: matches_def)
    moreover have "(\<exists>pre post. a # els = pre @ el # post \<and> matches el t
        \<and> (\<forall>e \<in> set pre. \<not> matches e t)) \<longleftrightarrow> el = a"
    proof
      assume "\<exists>pre post. a # els = pre @ el # post \<and> matches el t \<and> (\<forall>e \<in> set pre. \<not> matches e t)"
      then obtain pre post where p: "a # els = pre @ el # post" "\<forall>e \<in> set pre. \<not> matches e t"
        by blast
      with True show "el = a" by (cases pre) auto
    next
      assume "el = a"
      with True show "\<exists>pre post. a # els = pre @ el # post \<and> matches el t
          \<and> (\<forall>e \<in> set pre. \<not> matches e t)"
        by (intro exI [of _ "[]"] exI [of _ els]) simp
    qed
    ultimately show ?thesis by auto
  next
    case False
    then have "find_source (a # els) t = find_source els t"
      by (auto simp: matches_def split: option.splits)
    moreover have "(\<exists>pre post. a # els = pre @ el # post \<and> matches el t
        \<and> (\<forall>e \<in> set pre. \<not> matches e t))
      \<longleftrightarrow> (\<exists>pre post. els = pre @ el # post \<and> matches el t \<and> (\<forall>e \<in> set pre. \<not> matches e t))"
    proof
      assume "\<exists>pre post. a # els = pre @ el # post \<and> matches el t \<and> (\<forall>e \<in> set pre. \<not> matches e t)"
      then obtain pre post where p: "a # els = pre @ el # post" "matches el t"
        "\<forall>e \<in> set pre. \<not> matches e t"
        by blast
      with False obtain pre' where "pre = a # pre'" by (cases pre) auto
      with p show "\<exists>pre post. els = pre @ el # post \<and> matches el t \<and> (\<forall>e \<in> set pre. \<not> matches e t)"
        by (intro exI [of _ pre'] exI [of _ post]) simp
    next
      assume "\<exists>pre post. els = pre @ el # post \<and> matches el t \<and> (\<forall>e \<in> set pre. \<not> matches e t)"
      then obtain pre post where "els = pre @ el # post" "matches el t"
        "\<forall>e \<in> set pre. \<not> matches e t"
        by blast
      with False show "\<exists>pre post. a # els = pre @ el # post \<and> matches el t
          \<and> (\<forall>e \<in> set pre. \<not> matches e t)"
        by (intro exI [of _ "a # pre"] exI [of _ post]) simp
    qed
    ultimately show ?thesis using Cons.IH by simp
  qed
qed

lemma enrich_unmatched:
  "find_source elements t = None \<Longrightarrow>
     enrich elements t = [(lit ''text'', PStr t), (lit ''document_name'', PStr (lit ''unknown'')),
                          (lit ''page_number'', PNone)]"
  by (simp add: enrich_def)

lemma enrich_matched:
  "find_source elements t = Some el \<Longrightarrow>
     enrich elements t =
       [(lit ''text'', PStr t),
        (lit ''document_name'',
           case el_metadata el of None \<Rightarrow> PStr (lit ''unknown'')
           | Some md \<Rightarrow> (case md_filename md of None \<Rightarrow> PStr (lit ''unknown'') | Some v \<Rightarrow> v)),
        (lit ''page_number'',
           case el_metadata el of None \<Rightarrow> PNone
           | Some md \<Rightarrow> (case md_page_number md of None \<Rightarrow> PNone | Some v \<Rightarrow> v))]"
  by (simp add: enrich_def getattr_default_def split: option.splits)

lemma keys_distinct:
  "lit ''page_number'' \<noteq> lit ''document_name''" "lit ''text'' \<noteq> lit ''page_number''"
  "lit ''text'' \<noteq> lit ''document_name''"
  by (simp_all add: lit_def)

lemma store_unmatched:
  "find_source elements t = None \<Longrightarrow>
     metadata_clean (metadata_raw (enrich elements t)) =
       [(lit ''document_name'', PStr (lit ''unknown'')), (lit ''page_number'', PInt 0),
        (lit ''text'', PStr t)]"
  using keys_distinct
  by (simp add: enrich_unmatched metadata_clean_def metadata_raw_def clean_value_def dict_get_def)

lemma store_no_null: "\<forall>kv \<in> set (metadata_clean (metadata_raw chunk)). snd kv \<noteq> PNone"
  by (simp add: metadata_clean_def metadata_raw_def clean_value_def)

lemma store_null_name:
  "dict_get chunk (lit ''document_name'') = PNone \<Longrightarrow>
     dict_get (metadata_clean (metadata_raw chunk)) (lit ''document_name'') = PStr []"
  using keys_distinct
  by (simp add: metadata_clean_def metadata_raw_def clean_value_def dict_get_def)

lemma example_unmatched:
  "find_source [example_element] (lit ''Rent was due monthly.'') = None"
  by (simp add: example_element_def str_in_eval lit_def)

lemma example_matched:
  "find_source [example_element] (lit ''The lease began in 2019.'') = Some example_element"
  by (simp add: example_element_def str_in_eval lit_def)

text \<open>
  C6, as amended. A proposition goes to the first element of the batch whose text contains
  the proposition text or is contained in it. When no element matches, its
  \<^verbatim>\<open>document_name\<close> is the string \<^verbatim>\<open>unknown\<close> and its \<^verbatim>\<open>page_number\<close> is
  \<^verbatim>\<open>None\<close>; in the vector store the page number is then 0 and the document name is still
  \<^verbatim>\<open>unknown\<close>. A \<^verbatim>\<open>None\<close> document name or page number of a chunk reaches the store as
  the empty string or 0, and no metadata value in the store is \<^verbatim>\<open>None\<close>.
\<close>

theorem attribution_first_match:
  "(str_in a b \<longleftrightarrow> (\<exists>u v. b = u @ a @ v))
   \<and> (find_source elements t = None \<longleftrightarrow> (\<forall>el \<in> set elements. \<not> matches el t))
   \<and> (find_source elements t = Some el \<longleftrightarrow>
        (\<exists>pre post. elements = pre @ el # post \<and> matches el t
           \<and> (\<forall>e \<in> set pre. \<not> matches e t)))
   \<and> (find_source elements t = None \<longrightarrow>
        enrich elements t =
          [(lit ''text'', PStr t), (lit ''document_name'', PStr (lit ''unknown'')),
           (lit ''page_number'', PNone)]
        \<and> metadata_clean (metadata_raw (enrich elements t)) =
          [(lit ''document_name'', PStr (lit ''unknown'')), (lit ''page_number'', PInt 0),
           (lit ''text'', PStr t)])
   \<and> (find_source elements t = Some el \<longrightarrow>
        enrich elements t =
          [(lit ''text'', PStr t),
           (lit ''document_name'',
              case el_metadata el of None \<Rightarrow> PStr (lit ''unknown'')
              | Some md \<Rightarrow> (case md_filename md of None \<Rightarrow> PStr (lit ''unknown'') | Some v \<Rightarrow> v)),
           (lit ''page_number'',
              case el_metadata el of None \<Rightarrow> PNone
              | Some md \<Rightarrow> (case md_page_number md of None \<Rightarrow> PNone | Some v \<Rightarrow> v))])
   \<and> (\<forall>kv \<in> set (metadata_clean (metadata_raw chunk)). snd kv \<noteq> PNone)
   \<and> (dict_get chunk (lit ''document_name'') = PNone \<longrightarrow>
        dict_get (metadata_clean (metadata_raw chunk)) (lit ''document_name'') = PStr [])
   \<and> (dict_get chunk (lit ''page_number'') = PNone \<longrightarrow>
        dict_get (metadata_clean (metadata_raw chunk)) (lit ''page_number'') = PInt 0)"
proof (intro conjI)
  show "str_in a b \<longleftrightarrow> (\<exists>u v. b = u @ a @ v)"
    by (simp add: str_in_def sublist_def)
  show "find_source elements t = None \<longleftrightarrow> (\<forall>el \<in> set elements. \<not> matches el t)"
    by (rule find_source_None)
  show "find_source elements t = Some el \<longleftrightarrow>
        (\<exists>pre post. elements = pre @ el # post \<and> matches el t
           \<and> (\<forall>e \<in> set pre. \<not> matches e t))"
    by (rule find_source_Some)
  show "find_source elements t = None \<longrightarrow>
        enrich elements t =
          [(lit ''text'', PStr t), (lit ''document_name'', PStr (lit ''unknown'')),
           (lit ''page_number'', PNone)]
        \<and> metadata_clean (metadata_raw (enrich elements t)) =
          [(lit ''document_name'', PStr (lit ''unknown'')), (lit ''page_number'', PInt 0),
           (lit ''text'', PStr t)]"
    using enrich_unmatched store_unmatched by blast
  show "find_source elements t = Some el \<longrightarrow>
        enrich elements t =
          [(lit ''text'', PStr t),
           (lit ''document_name'',
              case el_metadata el of None \<Rightarrow> PStr (lit ''unknown'')
              | Some md \<Rightarrow> (case md_filename md of None \<Rightarrow> PStr (lit ''unknown'') | Some v \<Rightarrow> v)),
           (lit ''page_number'',
              case el_metadata el of None \<Rightarrow> PNone
              | Some md \<Rightarrow> (case md_page_number md of None \<Rightarrow> PNone | Some v \<Rightarrow> v))]"
    using enrich_matched by blast
  show "\<forall>kv \<in> set (metadata_clean (metadata_raw chunk)). snd kv \<noteq> PNone"
    by (rule store_no_null)
  show "dict_get chunk (lit ''document_name'') = PNone \<longrightarrow>
        dict_get (metadata_clean (metadata_raw chunk)) (lit ''document_name'') = PStr []"
    using store_null_name by blast
  show "dict_get chunk (lit ''page_number'') = PNone \<longrightarrow>
        dict_get (metadata_clean (metadata_raw chunk)) (lit ''page_number'') = PInt 0"
    using keys_distinct
    by (simp add: metadata_clean_def metadata_raw_def clean_value_def dict_get_def)
qed

theorem attribution_first_match_witness:
  "find_source [example_element] (lit ''Rent was due monthly.'') = None
   \<and> metadata_clean (metadata_raw (enrich [example_element] (lit ''Rent was due monthly.''))) =
        [(lit ''document_name'', PStr (lit ''unknown'')), (lit ''page_number'', PInt 0),
         (lit ''text'', PStr (lit ''Rent was due monthly.''))]
   \<and> find_source [example_element] (lit ''The lease began in 2019.'') = Some example_element
   \<and> enrich [example_element] (lit ''The lease began in 2019.'') =
        [(lit ''text'', PStr (lit ''The lease began in 2019.'')),
         (lit ''document_name'', PStr (lit ''a.pdf'')), (lit ''page_number'', PInt 1)]
   \<and> dict_get (metadata_clean (metadata_raw (chunk_of ''Rent was due monthly.'' PNone PNone)))
        (lit ''document_name'') = PStr []"
proof -
  have null: "dict_get (chunk_of ''Rent was due monthly.'' PNone PNone) (lit ''document_name'') = PNone"
    by (simp add: chunk_of_def dict_get_def lit_def)
  from attribution_first_match
    [where elements = "[example_element]" and t = "lit ''Rent was due monthly.''"
       and chunk = "chunk_of ''Rent was due monthly.'' PNone PNone"]
    example_unmatched null
  have a: "metadata_clean (metadata_raw (enrich [example_element] (lit ''Rent was due monthly.''))) =
        [(lit ''document_name'', PStr (lit ''unknown'')), (lit ''page_number'', PInt 0),
         (lit ''text'', PStr (lit ''Rent was due monthly.''))]"
    and c: "dict_get (metadata_clean (metadata_raw (chunk_of ''Rent was due monthly.'' PNone PNone)))
        (lit ''document_name'') = PStr []"
    by blast+
  from attribution_first_match
    [where elements = "[example_element]" and t = "lit ''The lease began in 2019.''"
       and el = example_element]
    example_matched
  have "enrich [example_element] (lit ''The lease began in 2019.'') =
          [(lit ''text'', PStr (lit ''The lease began in 2019.'')),
           (lit ''document_name'',
              case el_metadata example_element of None \<Rightarrow> PStr (lit ''unknown'')
              | Some md \<Rightarrow> (case md_filename md of None \<Rightarrow> PStr (lit ''unknown'') | Some v \<Rightarrow> v)),
           (lit ''page_number'',
              case el_metadata example_element of None \<Rightarrow> PNone
              | Some md \<Rightarrow> (case md_page_number md of None \<Rightarrow> PNone | Some v \<Rightarrow> v))]"
    by blast
  then have b: "enrich [example_element] (lit ''The lease began in 2019.'') =
        [(lit ''text'', PStr (lit ''The lease began in 2019.'')),
         (lit ''document_name'', PStr (lit ''a.pdf'')), (lit ''page_number'', PInt 1)]"
    by (simp add: example_element_def)
  from a b c example_unmatched example_matched show ?thesis by blast
qed

lemma example_propositions_indexed:
  "map rec_metadata (inserted (fst (embed_and_index_documents always_ok
        (Some [(lit ''a.json'', json_objects example_propositions)])))) =
     [[(lit ''document_name'', PStr (lit ''a.pdf'')), (lit ''page_number'', PInt 1),
       (lit ''text'', PStr (lit ''The lease began in 2019.''))],
      [(lit ''document_name'', PStr (lit ''unknown'')), (lit ''page_number'', PInt 0),
       (lit ''text'', PStr (lit ''Rent was due monthly.''))]]"
  using example_not_junk example_junk
  by (simp del: is_junk.simps add: example_propositions_def always_ok_def run_eval)

text \<open>
  C6, as stated, fails: the second proposition of the example matches no element, and its
  document name in the store is \<^verbatim>\<open>unknown\<close>, not the empty string.
\<close>

theorem unmatched_name_counterexample:
  "find_source [example_element] (lit ''Rent was due monthly.'') = None
   \<and> fst (chunk_batch_into_propositions utf8_console example_loads (example_reply (lit ''ok''))
            [example_element])
       = Inr (Some example_propositions)
   \<and> map rec_metadata (inserted (fst (embed_and_index_documents always_ok
        (Some [(lit ''a.json'', json_objects example_propositions)])))) =
     [[(lit ''document_name'', PStr (lit ''a.pdf'')), (lit ''page_number'', PInt 1),
       (lit ''text'', PStr (lit ''The lease began in 2019.''))],
      [(lit ''document_name'', PStr (lit ''unknown'')), (lit ''page_number'', PInt 0),
       (lit ''text'', PStr (lit ''Rent was due monthly.''))]]
   \<and> PStr (lit ''unknown'') \<noteq> PStr []"
  using example_unmatched example_chunked example_propositions_indexed
  by (simp add: lit_def)

lemma upload_guard:
  assumes "chunk_loop can_print json_loads llm elements [] [] []
             = (Inr (Some all_propositions), calls)"
    and "can_print (PStr file_name)" "makedirs_ok"
  shows "uploaded (process_document can_print json_loads llm makedirs_ok SaveReturned file_name
                     (Partitioned elements) r2_client)
           = (if r2_client \<noteq> None \<and> all_propositions \<noteq> []
              then Some (lit ''processed/'' @ splitext_root file_name @ lit ''.json'') else None)"
  using assms by (simp add: process_document_def Let_def)

subsection \<open>Strings of the JSON text\<close>

lemma hex_val_hex_digit: "n < 16 \<Longrightarrow> hex_val (hex_digit n) = Some n"
  by (auto simp: hex_val_def hex_digit_def)

lemma decode_hex4_low:
  assumes "c < 32"
  shows "decode_hex4 (48 # 48 # hex_digit (c div 16) # hex_digit (c mod 16) # rest) = Some (c, rest)"
proof -
  have "c div 16 < 16" "c mod 16 < 16" using assms by auto
  then have "hex_val (hex_digit (c div 16)) = Some (c div 16)"
    "hex_val (hex_digit (c mod 16)) = Some (c mod 16)"
    by (simp_all add: hex_val_hex_digit)
  moreover have "hex_val 48 = Some 0" by (simp add: hex_val_def)
  ultimately show ?thesis by (simp add: decode_hex4_def)
qed

lemma scanstring_quote: "scanstring (34 # rest) = Some ([], rest)"
  by (subst scanstring.simps) simp

lemma scanstring_plain:
  "c \<noteq> 34 \<Longrightarrow> c \<noteq> 92 \<Longrightarrow> \<not> c < 32 \<Longrightarrow> scanstring (c # s) = cons_result c (scanstring s)"
  by (subst scanstring.simps) simp

lemma scanstring_backslash:
  "e \<noteq> 117 \<Longrightarrow> backslash e = Some ch \<Longrightarrow> scanstring (92 # e # s) = cons_result ch (scanstring s)"
  by (subst scanstring.simps) simp

lemma scanstring_low_escape:
  assumes "c < 32" "s \<noteq> []"
  shows "scanstring (92 # 117 # 48 # 48 # hex_digit (c div 16) # hex_digit (c mod 16) # s)
           = cons_result c (scanstring s)"
  using assms by (subst scanstring.simps) (simp add: decode_hex4_low)

lemma scanstring_escape_char:
  assumes "s \<noteq> []"
  shows "scanstring (escape_char c @ s) = cons_result c (scanstring s)"
proof -
  consider (bs) "c = 92" | (q) "c = 34" | (b) "c = 8" | (f) "c = 12" | (n) "c = 10"
    | (r) "c = 13" | (t) "c = 9"
    | (low) "c < 32" "c \<noteq> 8" "c \<noteq> 12" "c \<noteq> 10" "c \<noteq> 13" "c \<noteq> 9"
    | (plain) "\<not> c < 32" "c \<noteq> 34" "c \<noteq> 92"
    by fastforce
  then show ?thesis
  proof cases
    case bs
    then show ?thesis by (simp add: escape_char_def scanstring_backslash backslash_def)
  next
    case q
    then show ?thesis by (simp add: escape_char_def scanstring_backslash backslash_def)
  next
    case b
    then show ?thesis by (simp add: escape_char_def scanstring_backslash backslash_def)
  next
    case f
    then show ?thesis by (simp add: escape_char_def scanstring_backslash backslash_def)
  next
    case n
    then show ?thesis by (simp add: escape_char_def scanstring_backslash backslash_def)
  next
    case r
    then show ?thesis by (simp add: escape_char_def scanstring_backslash backslash_def)
  next
    case t
    then show ?thesis by (simp add: escape_char_def scanstring_backslash backslash_def)
  next
    case low
    then show ?thesis using assms by (simp add: escape_char_def scanstring_low_escape)
  next
    case plain
    then have "escape_char c = [c]" by (auto simp: escape_char_def)
    with plain show ?thesis by (simp add: scanstring_plain)
  qed
qed

lemma scanstring_escaped:
  "scanstring (concat (map escape_char s) @ 34 # rest) = Some (s, rest)"
proof (induction s)
  case Nil
  show ?case by (simp add: scanstring_quote)
next
  case (Cons c s)
  have "scanstring (concat (map escape_char (c # s)) @ 34 # rest)
          = scanstring (escape_char c @ (concat (map escape_char s) @ 34 # rest))"
    by simp
  also have "\<dots> = cons_result c (scanstring (concat (map escape_char s) @ 34 # rest))"
    by (rule scanstring_escape_char) simp
  also have "\<dots> = Some (c # s, rest)"
    by (simp add: Cons.IH cons_result_def)
  finally show ?case .
qed

subsection \<open>Numbers of the JSON text\<close>

lemma str_nat_digits: "c \<in> set (str_nat n) \<Longrightarrow> is_digit c"
proof (induction n rule: str_nat.induct)
  case (1 n)
  show ?case
  proof (cases "n < 10")
    case True
    with "1.prems" show ?thesis
      by (subst (asm) str_nat.simps) (simp add: is_digit_def)
  next
    case False
    with "1.prems" have "c \<in> set (str_nat (n div 10)) \<or> c = 48 + n mod 10"
      by (subst (asm) str_nat.simps) auto
    then show ?thesis
    proof
      assume "c \<in> set (str_nat (n div 10))"
      with "1.IH" False show ?thesis by simp
    next
      assume "c = 48 + n mod 10"
      moreover have "n mod 10 < 10" by simp
      ultimately show ?thesis by (simp add: is_digit_def)
    qed
  qed
qed

lemma str_nat_hd: "0 < n \<Longrightarrow> hd (str_nat n) \<noteq> 48"
proof (induction n rule: str_nat.induct)
  case (1 n)
  show ?case
  proof (cases "n < 10")
    case True
    with "1.prems" show ?thesis by (subst str_nat.simps) simp
  next
    case False
    then have "0 < n div 10" by simp
    with "1.IH" False have "hd (str_nat (n div 10)) \<noteq> 48" by simp
    with False show ?thesis
      by (subst str_nat.simps) (simp add: str_nat_nonempty)
  qed
qed

lemma nat_of_digits_snoc: "nat_of_digits (ds @ [d]) = 10 * nat_of_digits ds + (d - 48)"
  by (simp add: nat_of_digits_def)

lemma nat_of_digits_str_nat: "nat_of_digits (str_nat n) = n"
proof (induction n rule: str_nat.induct)
  case (1 n)
  show ?case
  proof (cases "n < 10")
    case True
    then show ?thesis by (subst str_nat.simps) (simp add: nat_of_digits_def)
  next
    case False
    with "1.IH" have "nat_of_digits (str_nat (n div 10)) = n div 10" by simp
    with False show ?thesis
      by (subst str_nat.simps) (simp add: nat_of_digits_snoc)
  qed
qed

lemma str_nat_0: "str_nat 0 = [48]"
  by (subst str_nat.simps) simp

lemma value_end_not_digit: "value_end rest \<Longrightarrow> rest = [] \<or> \<not> is_digit (hd rest)"
  by (cases rest) (auto simp: value_end_def is_digit_def)

lemma takeWhile_digits:
  assumes "value_end rest"
  shows "takeWhile is_digit (str_nat n @ rest) = str_nat n"
proof -
  have "takeWhile is_digit rest = []"
    using value_end_not_digit [OF assms] by (cases rest) auto
  then show ?thesis
    using str_nat_digits [of _ n] by (simp add: takeWhile_append2)
qed

lemma scan_number_nat:
  assumes "value_end rest" "length (str_nat n) \<le> int_max_str_digits"
  shows "scan_number (str_nat n @ rest) = Scanned (PInt (int n)) rest"
proof -
  let ?s = "str_nat n @ rest"
  obtain d ds where ds: "str_nat n = d # ds"
    using str_nat_nonempty [of n] by (cases "str_nat n") auto
  have d: "is_digit d" using str_nat_digits [of d n] ds by simp
  have A: "(?s \<noteq> [] \<and> hd ?s = 45) = False"
    using d by (auto simp: ds is_digit_def)
  have B: "(case ?s of [] \<Rightarrow> []
            | c # cs \<Rightarrow> if c = 48 then [48]
                        else if is_digit c then takeWhile is_digit ?s else []) = str_nat n"
  proof (cases "n = 0")
    case True
    then show ?thesis by (simp add: str_nat_0)
  next
    case False
    then have "d \<noteq> 48" using str_nat_hd [of n] ds by simp
    moreover have "takeWhile is_digit ?s = str_nat n"
      by (rule takeWhile_digits [OF assms(1)])
    ultimately show ?thesis using d by (simp add: ds)
  qed
  have C: "drop (length (str_nat n)) ?s = rest" by simp
  have no_frac: "(case rest of c # d # r \<Rightarrow> c = 46 \<and> is_digit d | _ \<Rightarrow> False) = False"
    using assms(1) by (auto simp: value_end_def split: list.splits)
  have no_exp: "(case rest of c # r \<Rightarrow> if c = 101 \<or> c = 69 then Some r else None | _ \<Rightarrow> None) = None"
    using assms(1) by (auto simp: value_end_def split: list.splits)
  have D: "str_nat n \<noteq> []" by (rule str_nat_nonempty)
  have E: "\<not> length (str_nat n) > int_max_str_digits" using assms(2) by simp
  show ?thesis
    unfolding scan_number_def Let_def
    by (simp only: A if_False B C no_frac no_exp D E option.case nat_of_digits_str_nat simp_thms)
qed

lemma scan_number_neg:
  assumes "value_end rest" "length (str_nat n) \<le> int_max_str_digits"
  shows "scan_number (45 # str_nat n @ rest) = Scanned (PInt (- int n)) rest"
proof -
  let ?s = "str_nat n @ rest"
  obtain d ds where ds: "str_nat n = d # ds"
    using str_nat_nonempty [of n] by (cases "str_nat n") auto
  have d: "is_digit d" using str_nat_digits [of d n] ds by simp
  have A: "(45 # ?s \<noteq> [] \<and> hd (45 # ?s) = 45) = True" by simp
  have A': "tl (45 # ?s) = ?s" by simp
  have B: "(case ?s of [] \<Rightarrow> []
            | c # cs \<Rightarrow> if c = 48 then [48]
                        else if is_digit c then takeWhile is_digit ?s else []) = str_nat n"
  proof (cases "n = 0")
    case True
    then show ?thesis by (simp add: str_nat_0)
  next
    case False
    then have "d \<noteq> 48" using str_nat_hd [of n] ds by simp
    moreover have "takeWhile is_digit ?s = str_nat n"
      by (rule takeWhile_digits [OF assms(1)])
    ultimately show ?thesis using d by (simp add: ds)
  qed
  have C: "drop (length (str_nat n)) ?s = rest" by simp
  have no_frac: "(case rest of c # d # r \<Rightarrow> c = 46 \<and> is_digit d | _ \<Rightarrow> False) = False"
    using assms(1) by (auto simp: value_end_def split: list.splits)
  have no_exp: "(case rest of c # r \<Rightarrow> if c = 101 \<or> c = 69 then Some r else None | _ \<Rightarrow> None) = None"
    using assms(1) by (auto simp: value_end_def split: list.splits)
  have D: "str_nat n \<noteq> []" by (rule str_nat_nonempty)
  have E: "\<not> length (str_nat n) > int_max_str_digits" using assms(2) by simp
  show ?thesis
    unfolding scan_number_def Let_def
    by (simp only: A A' if_True B C no_frac no_exp D E option.case nat_of_digits_str_nat simp_thms
          if_False)
qed

lemma scan_number_int_repr:
  assumes "int_repr i = Done t" "value_end rest"
  shows "scan_number (t @ rest) = Scanned (PInt i) rest"
proof -
  from assms(1) have len: "length (str_nat (nat \<bar>i\<bar>)) \<le> int_max_str_digits"
    and t: "t = (if i < 0 then 45 # str_nat (nat \<bar>i\<bar>) else str_nat (nat \<bar>i\<bar>))"
    by (auto simp: int_repr_def Let_def split: if_splits)
  show ?thesis
  proof (cases "i < 0")
    case True
    with t scan_number_neg [OF assms(2) len] show ?thesis by simp
  next
    case False
    with t scan_number_nat [OF assms(2) len] show ?thesis by simp
  qed
qed

lemma int_repr_hd:
  assumes "int_repr i = Done t"
  shows "t \<noteq> [] \<and> (hd t = 45 \<and> tl t \<noteq> [] \<and> is_digit (hd (tl t)) \<or> is_digit (hd t))"
proof -
  from assms have t: "t = (if i < 0 then 45 # str_nat (nat \<bar>i\<bar>) else str_nat (nat \<bar>i\<bar>))"
    by (auto simp: int_repr_def Let_def split: if_splits)
  have "is_digit (hd (str_nat n))" for n
    using str_nat_digits [of "hd (str_nat n)" n] str_nat_nonempty [of n] by simp
  with t show ?thesis using str_nat_nonempty by auto
qed

subsection \<open>Scanning what was encoded\<close>

lemma skip_ws_indent [simp]: "skip_ws (newline_indent l @ s) = skip_ws s"
  by (simp add: skip_ws_def newline_indent_def is_ws_def dropWhile_append)

lemma skip_ws_id: "s = [] \<or> \<not> is_ws (hd s) \<Longrightarrow> skip_ws s = s"
  by (cases s) (auto simp: skip_ws_def)

lemma skip_ws_starts: "starts_value b \<Longrightarrow> skip_ws (b @ s) = b @ s"
  by (cases b) (auto simp: skip_ws_def starts_value_def)

lemma value_end_indent [simp]: "value_end (newline_indent l @ s)"
  by (simp add: value_end_def newline_indent_def)

lemma value_end_comma [simp]: "value_end (44 # s)"
  by (simp add: value_end_def)

lemma scan_once_Suc: "0 < fuel \<Longrightarrow> scan_once fuel s = scan_dispatch (parse_object (fuel - 1) []) (parse_array (fuel - 1) []) s"
  by (cases fuel) simp_all

lemma parse_array_Suc:
  "0 < fuel \<Longrightarrow> parse_array fuel acc s = array_step (scan_once (fuel - 1)) (parse_array (fuel - 1)) acc s"
  by (cases fuel) simp_all

lemma parse_object_Suc:
  "0 < fuel \<Longrightarrow> parse_object fuel acc s = object_step (scan_once (fuel - 1)) (parse_object (fuel - 1)) acc s"
  by (cases fuel) simp_all

lemma dispatch_null: "scan_dispatch obj arr (lit ''null'' @ rest) = Scanned PNone rest"
  by (simp add: scan_dispatch_def lit_def)

lemma dispatch_true: "scan_dispatch obj arr (lit ''true'' @ rest) = Scanned (PBool True) rest"
  by (simp add: scan_dispatch_def lit_def)

lemma dispatch_false: "scan_dispatch obj arr (lit ''false'' @ rest) = Scanned (PBool False) rest"
  by (simp add: scan_dispatch_def lit_def)

lemma dispatch_string:
  "scan_dispatch obj arr (encode_basestring s @ rest) = Scanned (PStr s) rest"
proof -
  have "encode_basestring s @ rest = 34 # (concat (map escape_char s) @ 34 # rest)"
    by (simp add: encode_basestring_def)
  then show ?thesis
    by (simp add: scan_dispatch_def scanstring_escaped)
qed

lemma dispatch_number:
  assumes "s \<noteq> []"
    and "is_digit (hd s) \<or> (hd s = 45 \<and> tl s \<noteq> [] \<and> is_digit (hd (tl s)))"
  shows "scan_dispatch obj arr s = scan_number s"
proof -
  obtain c cs where s: "s = c # cs" using assms(1) by (cases s) auto
  have inf: "\<not> (c = 45 \<and> take 8 cs = lit ''Infinity'')"
  proof
    assume a: "c = 45 \<and> take 8 cs = lit ''Infinity''"
    with assms(2) s have "cs \<noteq> []" "is_digit (hd cs)" by (auto simp: is_digit_def)
    moreover from a have "hd cs = 73" by (cases cs) (auto simp: lit_def)
    ultimately show False by (simp add: is_digit_def)
  qed
  have "c \<noteq> 34" "c \<noteq> 123" "c \<noteq> 91" "c \<noteq> 110" "c \<noteq> 116" "c \<noteq> 102" "c \<noteq> 78" "c \<noteq> 73"
    using assms(2) s by (auto simp: is_digit_def)
  with inf show ?thesis
    unfolding s scan_dispatch_def by auto
qed

lemma roundtrip_atoms:
  "roundtrip_value level PNone" "roundtrip_value level (PBool b)"
  "roundtrip_value level (PInt i)" "roundtrip_value level (PFloat w)"
  "roundtrip_value level (PStr s)"
proof -
  show "roundtrip_value level PNone"
    by (auto simp: roundtrip_value_def starts_value_def is_ws_def lit_def scan_once_Suc
        dispatch_null [unfolded lit_def, simplified])
  show "roundtrip_value level (PBool b)"
    by (cases b)
       (auto simp: roundtrip_value_def starts_value_def is_ws_def lit_def scan_once_Suc
          dispatch_true [unfolded lit_def, simplified] dispatch_false [unfolded lit_def, simplified])
  show "roundtrip_value level (PFloat w)"
    by (simp add: roundtrip_value_def)
  show "roundtrip_value level (PStr s)"
    unfolding roundtrip_value_def
  proof (intro allI impI conjI)
    fix t assume "iterencode level (PStr s) = Done t"
    then have t: "t = encode_basestring s" by simp
    show "starts_value t"
      by (simp add: t starts_value_def encode_basestring_def is_ws_def)
    fix rest fuel
    assume "length t \<le> fuel"
    then have "0 < fuel" by (simp add: t encode_basestring_def)
    then show "scan_once fuel (t @ rest) = Scanned (PStr s) rest"
      by (simp add: scan_once_Suc t dispatch_string)
  qed
  show "roundtrip_value level (PInt i)"
    unfolding roundtrip_value_def
  proof (intro allI impI conjI)
    fix t assume t: "iterencode level (PInt i) = Done t"
    then have r: "int_repr i = Done t" by simp
    note h = int_repr_hd [OF r]
    then show "starts_value t"
      by (auto simp: starts_value_def is_ws_def is_digit_def)
    fix rest fuel
    assume "value_end rest" "length t \<le> fuel"
    with h have "0 < fuel" by (cases t) auto
    moreover have "scan_dispatch obj arr (t @ rest) = scan_number (t @ rest)" for obj arr
      using h by (intro dispatch_number) (auto simp: hd_append tl_append split: list.splits)
    ultimately show "scan_once fuel (t @ rest) = Scanned (PInt i) rest"
      using scan_number_int_repr [OF r \<open>value_end rest\<close>] by (simp add: scan_once_Suc)
  qed
qed

lemma length_indent_pos: "0 < length (newline_indent l)"
  by (simp add: newline_indent_def)

lemma dispatch_array:
  assumes "starts_value b"
  shows "scan_dispatch obj arr (91 # newline_indent l @ b @ s) = arr (b @ s)"
proof -
  obtain d ds where b: "b = d # ds" using assms by (cases b) (auto simp: starts_value_def)
  have "skip_ws (newline_indent l @ b @ s) = b @ s"
    using skip_ws_starts [OF assms] by simp
  moreover have "d \<noteq> 93" using assms b by (simp add: starts_value_def)
  ultimately show ?thesis
    by (simp add: scan_dispatch_def b)
qed

lemma dispatch_object:
  assumes "b \<noteq> []" "hd b = 34"
  shows "scan_dispatch obj arr (123 # newline_indent l @ b @ s) = obj (b @ s)"
proof -
  obtain ds where b: "b = 34 # ds" using assms by (cases b) auto
  have "skip_ws (newline_indent l @ b @ s) = b @ s"
    by (simp add: b skip_ws_id is_ws_def)
  then show ?thesis
    by (simp add: scan_dispatch_def b)
qed

lemma roundtrip_list:
  assumes "xs \<noteq> [] \<Longrightarrow> roundtrip_items (level + 1) True xs"
  shows "roundtrip_value level (PList xs)"
proof (cases "xs = []")
  case True
  have "scan_dispatch obj arr (lit ''[]'' @ rest) = Scanned (PList []) rest" for obj arr rest
    by (simp add: scan_dispatch_def lit_def skip_ws_def is_ws_def)
  then show ?thesis
    using True
    by (auto simp: roundtrip_value_def starts_value_def is_ws_def scan_once_Suc lit_def)
next
  case False
  show ?thesis
    unfolding roundtrip_value_def
  proof (intro allI impI)
    fix t
    assume enc: "iterencode level (PList xs) = Done t" and dk: "distinct_keys (PList xs)"
    from enc False obtain body where body: "iterencode_items (level + 1) True xs = Done body"
      and t: "t = [91] @ body @ newline_indent level @ [93]"
      by (auto split: outcome.splits)
    from assms [OF False] body False dk obtain b where
      b: "body = newline_indent (level + 1) @ b" "starts_value b"
      and parse: "\<And>acc rest l fuel. length b < fuel \<Longrightarrow>
              parse_array fuel acc (b @ newline_indent l @ 93 # rest)
                = Scanned (PList (acc @ xs)) rest"
      unfolding roundtrip_items_def by auto
    have "starts_value t" by (simp add: t starts_value_def is_ws_def)
    moreover have "scan_once fuel (t @ rest) = Scanned (PList xs) rest"
      if "length t \<le> fuel" for rest fuel
    proof -
      from that have fuel: "0 < fuel" "length b < fuel - 1"
        using length_indent_pos [of "level + 1"] length_indent_pos [of level]
        by (auto simp: t b)
      have "scan_once fuel (t @ rest)
              = scan_dispatch (parse_object (fuel - 1) []) (parse_array (fuel - 1) [])
                  (91 # newline_indent (level + 1) @ b @ (newline_indent level @ 93 # rest))"
        using fuel(1) by (simp add: scan_once_Suc t b)
      also have "\<dots> = parse_array (fuel - 1) [] (b @ newline_indent level @ 93 # rest)"
        by (rule dispatch_array [OF b(2)])
      also have "\<dots> = Scanned (PList xs) rest"
        using parse [OF fuel(2), of "[]" level rest] by simp
      finally show ?thesis .
    qed
    ultimately show "starts_value t \<and>
        (\<forall>rest fuel. value_end rest \<longrightarrow> length t \<le> fuel \<longrightarrow>
           scan_once fuel (t @ rest) = Scanned (PList xs) rest)"
      by blast
  qed
qed

lemma roundtrip_dict:
  assumes "kvs \<noteq> [] \<Longrightarrow> roundtrip_pairs (level + 1) True kvs"
  shows "roundtrip_value level (PDict kvs)"
proof (cases "kvs = []")
  case True
  have "scan_dispatch obj arr (lit ''{}'' @ rest) = Scanned (PDict []) rest" for obj arr rest
    by (simp add: scan_dispatch_def lit_def skip_ws_def is_ws_def)
  then show ?thesis
    using True
    by (auto simp: roundtrip_value_def starts_value_def is_ws_def scan_once_Suc lit_def)
next
  case False
  show ?thesis
    unfolding roundtrip_value_def
  proof (intro allI impI)
    fix t
    assume enc: "iterencode level (PDict kvs) = Done t" and dk: "distinct_keys (PDict kvs)"
    from enc False obtain body where body: "iterencode_pairs (level + 1) True kvs = Done body"
      and t: "t = [123] @ body @ newline_indent level @ [125]"
      by (auto split: outcome.splits)
    from dk have dk': "distinct_keys_pairs kvs" "distinct (map fst kvs)" by simp_all
    from assms [OF False] body False dk'(1) obtain b where
      b: "body = newline_indent (level + 1) @ b" "b \<noteq> []" "hd b = 34"
      and parse: "\<And>acc rest l fuel. distinct (map fst acc @ map fst kvs) \<Longrightarrow> length b < fuel \<Longrightarrow>
              parse_object fuel acc (b @ newline_indent l @ 125 # rest)
                = Scanned (PDict (acc @ kvs)) rest"
      unfolding roundtrip_pairs_def by auto
    have "starts_value t" by (simp add: t starts_value_def is_ws_def)
    moreover have "scan_once fuel (t @ rest) = Scanned (PDict kvs) rest"
      if "length t \<le> fuel" for rest fuel
    proof -
      from that have fuel: "0 < fuel" "length b < fuel - 1"
        using length_indent_pos [of "level + 1"] length_indent_pos [of level]
        by (auto simp: t b)
      have "scan_once fuel (t @ rest)
              = scan_dispatch (parse_object (fuel - 1) []) (parse_array (fuel - 1) [])
                  (123 # newline_indent (level + 1) @ b @ (newline_indent level @ 125 # rest))"
        using fuel(1) by (simp add: scan_once_Suc t b)
      also have "\<dots> = parse_object (fuel - 1) [] (b @ newline_indent level @ 125 # rest)"
        by (rule dispatch_object [OF b(2,3)])
      also have "\<dots> = Scanned (PDict kvs) rest"
        using parse [OF _ fuel(2), of "[]" level rest] dk'(2) by simp
      finally show ?thesis .
    qed
    ultimately show "starts_value t \<and>
        (\<forall>rest fuel. value_end rest \<longrightarrow> length t \<le> fuel \<longrightarrow>
           scan_once fuel (t @ rest) = Scanned (PDict kvs) rest)"
      by blast
  qed
qed

lemma dict_update_fresh: "k \<notin> fst ` set acc \<Longrightarrow> dict_update acc k v = acc @ [(k, v)]"
  by (induction acc) auto

lemma skip_ws_bracket [simp]: "skip_ws (93 # s) = 93 # s" "skip_ws (125 # s) = 125 # s"
  "skip_ws (44 # s) = 44 # s" "skip_ws (58 # s) = 58 # s"
  by (simp_all add: skip_ws_def is_ws_def)

lemma skip_ws_space [simp]: "skip_ws (32 # s) = skip_ws s"
  by (simp add: skip_ws_def is_ws_def)

lemma roundtrip_items_Nil: "roundtrip_items level first []"
  by (simp add: roundtrip_items_def)

lemma roundtrip_pairs_Nil: "roundtrip_pairs level first []"
  by (simp add: roundtrip_pairs_def)

lemma roundtrip_items_Cons:
  assumes x: "roundtrip_value level x"
    and xs: "roundtrip_items level False xs"
  shows "roundtrip_items level first (x # xs)"
  unfolding roundtrip_items_def
proof (intro allI impI)
  fix body
  assume enc: "iterencode_items level first (x # xs) = Done body"
    and dk: "distinct_keys_items (x # xs)"
  from enc obtain chunk others where chunk: "iterencode level x = Done chunk"
    and others: "iterencode_items level False xs = Done others"
    and body: "body = (if first then [] else [44]) @ newline_indent level @ chunk @ others"
    by (auto split: outcome.splits)
  from dk have dkx: "distinct_keys x" and dkxs: "distinct_keys_items xs" by simp_all
  from x chunk dkx have sv: "starts_value chunk"
    and scan: "\<And>rest fuel. value_end rest \<Longrightarrow> length chunk \<le> fuel \<Longrightarrow>
                 scan_once fuel (chunk @ rest) = Scanned x rest"
    unfolding roundtrip_value_def by auto
  have svb: "starts_value (chunk @ others)"
    using sv by (cases chunk) (auto simp: starts_value_def)
  have "parse_array fuel acc ((chunk @ others) @ newline_indent l @ 93 # rest)
          = Scanned (PList (acc @ x # xs)) rest"
    if fuel: "length (chunk @ others) < fuel" for acc rest l fuel
  proof (cases "xs = []")
    case True
    with others have o: "others = []" by simp
    have "scan_once (fuel - 1) (chunk @ newline_indent l @ 93 # rest)
            = Scanned x (newline_indent l @ 93 # rest)"
      using fuel by (intro scan) (simp_all add: o)
    then show ?thesis
      using fuel by (simp add: parse_array_Suc array_step_def o True)
  next
    case False
    from xs others False dkxs obtain b where
      o: "others = [44] @ newline_indent level @ b" and svb': "starts_value b"
      and parse: "\<And>acc rest l fuel. length b < fuel \<Longrightarrow>
              parse_array fuel acc (b @ newline_indent l @ 93 # rest)
                = Scanned (PList (acc @ xs)) rest"
      unfolding roundtrip_items_def by auto
    let ?tail = "b @ newline_indent l @ 93 # rest"
    have "scan_once (fuel - 1) (chunk @ 44 # newline_indent level @ ?tail)
            = Scanned x (44 # newline_indent level @ ?tail)"
      using fuel by (intro scan) (simp_all add: o)
    moreover have "skip_ws ?tail = ?tail"
      using skip_ws_starts [OF svb'] by simp
    moreover have "parse_array (fuel - 1) (acc @ [x]) ?tail = Scanned (PList ((acc @ [x]) @ xs)) rest"
      using fuel by (intro parse) (simp add: o)
    ultimately show ?thesis
      using fuel by (simp add: parse_array_Suc array_step_def o)
  qed
  with svb body
  show "\<exists>b. body = (if first then [] else [44]) @ newline_indent level @ b \<and> starts_value b \<and>
           (\<forall>acc rest l fuel. length b < fuel \<longrightarrow>
              parse_array fuel acc (b @ newline_indent l @ 93 # rest)
                = Scanned (PList (acc @ x # xs)) rest)"
    by (intro exI [of _ "chunk @ others"]) blast
qed

lemma object_step_pair:
  assumes sv: "starts_value chunk"
    and scan: "scan (chunk @ rest) = Scanned v rest"
  shows "object_step scan again acc (encode_basestring key @ [58, 32] @ chunk @ rest)
           = (case skip_ws rest of
                [] \<Rightarrow> DecodeErr
              | d # ds \<Rightarrow>
                  if d = 125 then Scanned (PDict (dict_update acc key v)) ds
                  else if d = 44 then again (dict_update acc key v) (skip_ws ds)
                  else DecodeErr)"
proof -
  have s: "encode_basestring key @ [58, 32] @ chunk @ rest
             = 34 # (concat (map escape_char key) @ 34 # (58 # 32 # chunk @ rest))"
    by (simp add: encode_basestring_def)
  have "skip_ws (chunk @ rest) = chunk @ rest"
    by (rule skip_ws_starts [OF sv])
  then show ?thesis
    unfolding s object_step_def by (simp add: scanstring_escaped scan)
qed

lemma roundtrip_pairs_Cons:
  assumes x: "roundtrip_value level x"
    and xs: "roundtrip_pairs level False kvs"
  shows "roundtrip_pairs level first ((key, x) # kvs)"
  unfolding roundtrip_pairs_def
proof (intro allI impI)
  fix body
  assume enc: "iterencode_pairs level first ((key, x) # kvs) = Done body"
    and dk: "distinct_keys_pairs ((key, x) # kvs)"
  from enc obtain chunk others where chunk: "iterencode level x = Done chunk"
    and others: "iterencode_pairs level False kvs = Done others"
    and body: "body = (if first then [] else [44]) @ newline_indent level
                 @ encode_basestring key @ [58, 32] @ chunk @ others"
    by (auto split: outcome.splits)
  from dk have dkx: "distinct_keys x" and dkxs: "distinct_keys_pairs kvs" by simp_all
  from x chunk dkx have sv: "starts_value chunk"
    and scan: "\<And>rest fuel. value_end rest \<Longrightarrow> length chunk \<le> fuel \<Longrightarrow>
                 scan_once fuel (chunk @ rest) = Scanned x rest"
    unfolding roundtrip_value_def by auto
  let ?b = "encode_basestring key @ [58, 32] @ chunk @ others"
  have hdb: "?b \<noteq> []" "hd ?b = 34"
    by (simp_all add: encode_basestring_def)
  have "parse_object fuel acc (?b @ newline_indent l @ 125 # rest)
          = Scanned (PDict (acc @ (key, x) # kvs)) rest"
    if fuel: "length ?b < fuel"
      and dist: "distinct (map fst acc @ map fst ((key, x) # kvs))" for acc rest l fuel
  proof -
    from dist have fresh: "key \<notin> fst ` set acc" by auto
    note upd = dict_update_fresh [OF fresh]
    show ?thesis
    proof (cases "kvs = []")
      case True
      with others have o: "others = []" by simp
      have "scan_once (fuel - 1) (chunk @ newline_indent l @ 125 # rest)
              = Scanned x (newline_indent l @ 125 # rest)"
        using fuel by (intro scan) (simp_all add: o)
      from object_step_pair [where scan = "scan_once (fuel - 1)" and chunk = chunk
          and rest = "newline_indent l @ 125 # rest" and v = x
          and again = "parse_object (fuel - 1)" and acc = acc and key = key, OF sv this]
      show ?thesis
        using fuel by (simp add: parse_object_Suc o True upd)
    next
      case False
      from xs others False dkxs obtain b where
        o: "others = [44] @ newline_indent level @ b" and b: "b \<noteq> []" "hd b = 34"
        and parse: "\<And>acc rest l fuel. distinct (map fst acc @ map fst kvs) \<Longrightarrow>
                length b < fuel \<Longrightarrow>
                parse_object fuel acc (b @ newline_indent l @ 125 # rest)
                  = Scanned (PDict (acc @ kvs)) rest"
        unfolding roundtrip_pairs_def by auto
      let ?tail = "b @ newline_indent l @ 125 # rest"
      have "scan_once (fuel - 1) (chunk @ 44 # newline_indent level @ ?tail)
              = Scanned x (44 # newline_indent level @ ?tail)"
        using fuel by (intro scan) (simp_all add: o)
      note step = object_step_pair [where scan = "scan_once (fuel - 1)" and chunk = chunk
          and rest = "44 # newline_indent level @ ?tail" and v = x
          and again = "parse_object (fuel - 1)" and acc = acc and key = key, OF sv this]
      have skip: "skip_ws ?tail = ?tail"
        using b by (cases b) (auto simp: skip_ws_id is_ws_def)
      have "distinct (map fst (acc @ [(key, x)]) @ map fst kvs)"
        using dist by auto
      then have "parse_object (fuel - 1) (acc @ [(key, x)]) ?tail
                   = Scanned (PDict ((acc @ [(key, x)]) @ kvs)) rest"
        using fuel by (intro parse) (simp_all add: o)
      with step skip show ?thesis
        using fuel by (simp add: parse_object_Suc o upd)
    qed
  qed
  with hdb body
  show "\<exists>b. body = (if first then [] else [44]) @ newline_indent level @ b \<and> b \<noteq> [] \<and> hd b = 34 \<and>
           (\<forall>acc rest l fuel. distinct (map fst acc @ map fst ((key, x) # kvs)) \<longrightarrow>
              length b < fuel \<longrightarrow>
              parse_object fuel acc (b @ newline_indent l @ 125 # rest)
                = Scanned (PDict (acc @ (key, x) # kvs)) rest)"
    by (intro exI [of _ ?b]) blast
qed

lemma roundtrip_all:
  "roundtrip_value level v"
  "roundtrip_items level first xs"
  "roundtrip_pairs level first kvs"
proof (induction level v and level first xs and level first kvs
    rule: iterencode_iterencode_items_iterencode_pairs.induct)
  case (6 level xs)
  show ?case
  proof (rule roundtrip_list)
    assume "xs \<noteq> []"
    then show "roundtrip_items (level + 1) True xs" by (rule 6)
  qed
next
  case (7 level kvs)
  show ?case
  proof (rule roundtrip_dict)
    assume "kvs \<noteq> []"
    then show "roundtrip_pairs (level + 1) True kvs" by (rule 7)
  qed
next
  case (9 level first x xs)
  show ?case
  proof (cases "iterencode level x")
    case (Done chunk)
    show ?thesis
      by (rule roundtrip_items_Cons [OF "9.IH"(1) "9.IH"(2) [OF Done]])
  next
    case Raised
    then show ?thesis by (simp add: roundtrip_items_def)
  next
    case Unmodelled
    then show ?thesis by (simp add: roundtrip_items_def)
  qed
next
  case (11 level first key val kvs)
  show ?case
  proof (cases "iterencode level val")
    case (Done chunk)
    show ?thesis
      by (rule roundtrip_pairs_Cons [OF "11.IH"(1) "11.IH"(2) [OF Done]])
  next
    case Raised
    then show ?thesis by (simp add: roundtrip_pairs_def)
  next
    case Unmodelled
    then show ?thesis by (simp add: roundtrip_pairs_def)
  qed
qed (simp_all add: roundtrip_atoms roundtrip_items_Nil roundtrip_pairs_Nil)

lemma value_end_Nil [simp]: "value_end []"
  by (simp add: value_end_def)

lemma json_loads_dumps:
  assumes "json_dumps v = Done t" "distinct_keys v"
  shows "json_loads_text t = Scanned v []"
proof -
  from assms have enc: "iterencode 0 v = Done t" by (simp add: json_dumps_def)
  from roundtrip_all(1) [of 0 v] enc assms(2) have sv: "starts_value t"
    and scan: "\<And>rest fuel. value_end rest \<Longrightarrow> length t \<le> fuel \<Longrightarrow>
                 scan_once fuel (t @ rest) = Scanned v rest"
    unfolding roundtrip_value_def by auto
  have "scan_once (2 * length t + 2) (t @ []) = Scanned v []"
    by (rule scan) simp_all
  moreover have "skip_ws t = t" using skip_ws_starts [OF sv, of "[]"] by simp
  moreover have "hd t \<noteq> 65279" using sv by (simp add: starts_value_def)
  ultimately show ?thesis
    by (simp add: json_loads_text_def skip_ws_def)
qed

subsection \<open>UTF-8\<close>


lemma div64_ge: "128 \<le> (c::nat) \<Longrightarrow> 2 \<le> c div 64"
  using div_le_mono [of 128 c 64] by simp

lemma div64_less: "(c::nat) < 2048 \<Longrightarrow> c div 64 < 32"
  by (simp add: less_mult_imp_div_less)

lemma div4096_less: "(c::nat) < 65536 \<Longrightarrow> c div 4096 < 16"
  by (simp add: less_mult_imp_div_less)

lemma split_gen: "(x::nat) div b * (b * a) + x mod b * a = x * a"
proof -
  have "(x div b * b + x mod b) * a = x * a" by simp
  then show ?thesis by (simp only: distrib_right mult.assoc)
qed

lemma split64: "(c::nat) div 64 * 64 + c mod 64 = c"
  by simp

lemma div4096: "(c::nat) div 4096 = c div 64 div 64"
  using div_mult2_eq [of c 64 64] by simp

lemma div262144: "(c::nat) div 262144 = c div 4096 div 64"
  using div_mult2_eq [of c 4096 64] by simp

lemma split4096: "(c::nat) div 4096 * 4096 + (c div 64) mod 64 * 64 + c mod 64 = c"
proof -
  have "c div 4096 * 4096 + (c div 64) mod 64 * 64 = c div 64 * 64"
    using split_gen [of "c div 64" 64 64] by (simp only: div4096)
  then show ?thesis by (simp only: split64)
qed

lemma split262144:
  "(c::nat) div 262144 * 262144 + (c div 4096) mod 64 * 4096 + (c div 64) mod 64 * 64 + c mod 64 = c"
proof -
  have "c div 262144 * 262144 + (c div 4096) mod 64 * 4096 = c div 4096 * 4096"
    using split_gen [of "c div 4096" 64 4096] by (simp only: div262144)
  then show ?thesis by (simp only: split4096)
qed

lemma div262144_less: "(c::nat) < 1114112 \<Longrightarrow> c div 262144 < 5"
  by (simp add: less_mult_imp_div_less)


lemma utf8_decode_one_char:
  assumes "utf8_char c = Some bs"
  shows "utf8_decode_one (bs @ rest) = Some (c, rest)"
proof -
  consider "c < 128" | "128 \<le> c" "c < 2048"
    | "2048 \<le> c" "c < 65536" "\<not> (55296 \<le> c \<and> c \<le> 57343)"
    | "65536 \<le> c" "c < 1114112"
    using assms by (auto simp: utf8_char_def split: if_splits)
  then show ?thesis
  proof cases
    case 1
    with assms show ?thesis by (auto simp: utf8_char_def utf8_decode_one_def)
  next
    case 2
    with assms have bs: "bs = [192 + c div 64, 128 + c mod 64]"
      by (auto simp: utf8_char_def)
    have "2 \<le> c div 64" "c div 64 < 32"
      using 2 by (simp_all add: div64_ge div64_less)
    moreover have "c div 64 * 64 + c mod 64 = c" by simp
    ultimately show ?thesis
      by (simp add: bs utf8_decode_one_def is_cont_def)
  next
    case 3
    with assms have bs: "bs = [224 + c div 4096, 128 + (c div 64) mod 64, 128 + c mod 64]"
      by (auto simp: utf8_char_def)
    have "c div 4096 < 16" using 3 by (simp add: div4096_less)
    moreover have "c div 4096 * 4096 + (c div 64) mod 64 * 64 + c mod 64 = c"
      by (rule split4096)
    ultimately show ?thesis
      using 3 by (simp add: bs utf8_decode_one_def is_cont_def)
  next
    case 4
    with assms have bs: "bs = [240 + c div 262144, 128 + (c div 4096) mod 64,
                               128 + (c div 64) mod 64, 128 + c mod 64]"
      by (auto simp: utf8_char_def)
    have "c div 262144 < 5" using 4 by (simp add: div262144_less)
    moreover have "c div 262144 * 262144 + (c div 4096) mod 64 * 4096
                     + (c div 64) mod 64 * 64 + c mod 64 = c"
      by (rule split262144)
    ultimately show ?thesis
      using 4 by (simp add: bs utf8_decode_one_def is_cont_def)
  qed
qed

lemma utf8_char_nonempty: "utf8_char c = Some bs \<Longrightarrow> bs \<noteq> []"
  by (auto simp: utf8_char_def split: if_splits)

lemma utf8_decode_encode: "utf8_encode s = Some bs \<Longrightarrow> utf8_decode bs = Some s"
proof (induction s arbitrary: bs)
  case Nil
  then show ?case by (simp add: utf8_decode.simps)
next
  case (Cons c cs)
  from Cons.prems obtain b rest where b: "utf8_char c = Some b"
    and rest: "utf8_encode cs = Some rest" and bs: "bs = b @ rest"
    by (auto split: option.splits)
  have "b @ rest \<noteq> []" using utf8_char_nonempty [OF b] by simp
  then show ?case
    using utf8_decode_one_char [OF b, of rest] Cons.IH [OF rest]
    by (subst utf8_decode.simps) (simp add: bs)
qed

lemma utf8_char_encodable: "encodable c \<Longrightarrow> \<exists>bs. utf8_char c = Some bs"
  by (auto simp: utf8_char_def encodable_def)

lemma utf8_encode_encodable: "list_all encodable s \<Longrightarrow> \<exists>bs. utf8_encode s = Some bs"
proof (induction s)
  case Nil
  then show ?case by simp
next
  case (Cons c cs)
  then obtain b rest where "utf8_char c = Some b" "utf8_encode cs = Some rest"
    using utf8_char_encodable [of c] by auto
  then show ?case by simp
qed

subsection \<open>Newlines\<close>

lemma universal_newlines_Cons: "c \<noteq> 13 \<Longrightarrow> universal_newlines (c # s) = c # universal_newlines s"
  by (cases s) auto

lemma read_write_newlines:
  assumes "linesep = [10] \<or> linesep = [13, 10]" "13 \<notin> set s"
  shows "universal_newlines (write_newlines linesep s) = s"
  using assms(2)
proof (induction s)
  case Nil
  then show ?case by (simp add: write_newlines_def)
next
  case (Cons c cs)
  then have IH: "universal_newlines (write_newlines linesep cs) = cs" and c: "c \<noteq> 13" by auto
  show ?case
  proof (cases "c = 10")
    case True
    from assms(1) show ?thesis
    proof
      assume "linesep = [10]"
      then show ?thesis
        using IH True by (simp add: write_newlines_def universal_newlines_Cons)
    next
      assume "linesep = [13, 10]"
      then show ?thesis
        using IH True by (simp add: write_newlines_def)
    qed
  next
    case False
    then show ?thesis
      using IH c universal_newlines_Cons [OF c, of "write_newlines linesep cs"]
      by (simp add: write_newlines_def)
  qed
qed

lemma write_newlines_encodable:
  assumes "linesep = [10] \<or> linesep = [13, 10]" "list_all encodable s"
  shows "list_all encodable (write_newlines linesep s)"
  using assms by (induction s) (auto simp: write_newlines_def encodable_def)

subsection \<open>What the encoder writes\<close>

lemma plain_consts [simp]:
  "plain 91" "plain 93" "plain 123" "plain 125" "plain 44" "plain 58" "plain 32"
  "plain 34" "plain 92" "plain 45" "plain 48" "plain 98" "plain 102" "plain 110"
  "plain 114" "plain 116" "plain 117" "plain 10"
  by (simp_all add: plain_def encodable_def)

lemma plain_hex_digit: "n < 16 \<Longrightarrow> plain (hex_digit n)"
  by (simp add: hex_digit_def plain_def encodable_def)

lemma plain_escape_char:
  assumes "encodable c"
  shows "list_all plain (escape_char c)"
proof (cases "c < 32")
  case True
  then have "c div 16 < 16" "c mod 16 < 16"
    by (simp_all add: less_mult_imp_div_less)
  then have "plain (hex_digit (c div 16))" "plain (hex_digit (c mod 16))"
    by (simp_all add: plain_hex_digit)
  with True show ?thesis
    by (simp add: escape_char_def)
next
  case False
  then have "c \<noteq> 13" by simp
  with assms have "plain c" by (simp add: plain_def)
  with False show ?thesis
    by (simp add: escape_char_def)
qed

lemma plain_encode_basestring: "list_all encodable s \<Longrightarrow> list_all plain (encode_basestring s)"
proof -
  assume "list_all encodable s"
  then have "list_all plain (concat (map escape_char s))"
    by (induction s) (simp_all add: plain_escape_char)
  then show ?thesis
    by (simp add: encode_basestring_def)
qed

lemma plain_indent: "list_all plain (newline_indent l)"
  by (simp add: newline_indent_def list_all_iff)

lemma plain_str_nat: "list_all plain (str_nat n)"
proof -
  have "plain c" if "c \<in> set (str_nat n)" for c
    using str_nat_digits [OF that] by (simp add: plain_def encodable_def is_digit_def)
  then show ?thesis by (simp add: list_all_iff)
qed

lemma plain_int_repr:
  "length (str_nat (nat \<bar>i\<bar>)) \<le> int_max_str_digits
     \<Longrightarrow> \<exists>t. int_repr i = Done t \<and> list_all plain t"
  by (simp add: int_repr_def Let_def plain_str_nat)

lemma iterencode_storable:
  "storable v \<Longrightarrow> dumps_plain (iterencode level v)"
  "storable_items xs \<Longrightarrow> dumps_plain (iterencode_items level first xs)"
  "storable_pairs kvs \<Longrightarrow> dumps_plain (iterencode_pairs level first kvs)"
proof (induction level v and level first xs and level first kvs
    rule: iterencode_iterencode_items_iterencode_pairs.induct)
  case (1 level)
  show ?case by (simp add: dumps_plain_def lit_def plain_def encodable_def)
next
  case (2 level b)
  show ?case by (simp add: dumps_plain_def lit_def plain_def encodable_def)
next
  case (3 level i)
  then show ?case using plain_int_repr [of i] by (simp add: dumps_plain_def)
next
  case (4 level w)
  then show ?case by simp
next
  case (5 level s)
  then show ?case by (simp add: dumps_plain_def plain_encode_basestring)
next
  case (6 level xs)
  show ?case
  proof (cases "xs = []")
    case True
    then show ?thesis by (simp add: dumps_plain_def lit_def)
  next
    case False
    from "6.IH" [OF False] "6.prems" obtain body where
      "iterencode_items (level + 1) True xs = Done body" "list_all plain body"
      by (auto simp: dumps_plain_def)
    then show ?thesis
      using False by (simp add: dumps_plain_def plain_indent)
  qed
next
  case (7 level kvs)
  show ?case
  proof (cases "kvs = []")
    case True
    then show ?thesis by (simp add: dumps_plain_def lit_def)
  next
    case False
    from "7.IH" [OF False] "7.prems" obtain body where
      "iterencode_pairs (level + 1) True kvs = Done body" "list_all plain body"
      by (auto simp: dumps_plain_def)
    then show ?thesis
      using False by (simp add: dumps_plain_def plain_indent)
  qed
next
  case (8 level first)
  show ?case by (simp add: dumps_plain_def)
next
  case (9 level first x xs)
  from "9.prems" have sx: "storable x" and sxs: "storable_items xs" by simp_all
  from "9.IH"(1) [OF sx] obtain chunk where
    chunk: "iterencode level x = Done chunk" "list_all plain chunk"
    by (auto simp: dumps_plain_def)
  from "9.IH"(2) [OF chunk(1) sxs] obtain others where
    others: "iterencode_items level False xs = Done others" "list_all plain others"
    by (auto simp: dumps_plain_def)
  show ?case
    using chunk others by (simp add: dumps_plain_def plain_indent)
next
  case (10 level first)
  show ?case by (simp add: dumps_plain_def)
next
  case (11 level first key val kvs)
  from "11.prems" have sk: "list_all encodable key" and sx: "storable val"
    and sxs: "storable_pairs kvs" by simp_all
  from "11.IH"(1) [OF sx] obtain chunk where
    chunk: "iterencode level val = Done chunk" "list_all plain chunk"
    by (auto simp: dumps_plain_def)
  from "11.IH"(2) [OF chunk(1) sxs] obtain others where
    others: "iterencode_pairs level False kvs = Done others" "list_all plain others"
    by (auto simp: dumps_plain_def)
  show ?case
    using chunk others plain_encode_basestring [OF sk]
    by (simp add: dumps_plain_def plain_indent)
qed

lemma json_file_round_trip:
  assumes sep: "linesep = [10] \<or> linesep = [13, 10]"
    and st: "storable (PList (map PDict props))"
    and dk: "distinct_keys (PList (map PDict props))"
  shows "\<exists>bytes. save_json linesep props = Done bytes
           \<and> load_json bytes = Some (Loaded (PList (map PDict props)))"
proof -
  let ?v = "PList (map PDict props)"
  from iterencode_storable(1) [OF st, of 0] obtain t where
    t: "json_dumps ?v = Done t" and pl: "list_all plain t"
    by (auto simp: dumps_plain_def json_dumps_def)
  from pl have enc: "list_all encodable t" and cr: "13 \<notin> set t"
    by (auto simp: list_all_iff plain_def)
  from utf8_encode_encodable [OF write_newlines_encodable [OF sep enc]] obtain bytes where
    bytes: "utf8_encode (write_newlines linesep t) = Some bytes" ..
  have save: "save_json linesep props = Done bytes"
    by (simp add: save_json_def t bytes)
  have "utf8_decode bytes = Some (write_newlines linesep t)"
    by (rule utf8_decode_encode [OF bytes])
  moreover have "universal_newlines (write_newlines linesep t) = t"
    by (rule read_write_newlines [OF sep cr])
  moreover have "json_loads_text t = Scanned ?v []"
    by (rule json_loads_dumps [OF t dk])
  ultimately have "load_json bytes = Some (Loaded ?v)"
    by (simp add: load_json_def)
  with save show ?thesis by blast
qed

lemma atom_distinct_keys: "is_str v \<or> int_or_none v \<Longrightarrow> distinct_keys v"
  by (cases v) (simp_all add: is_str_def int_or_none_def)

lemma proposition_distinct_keys:
  assumes "is_proposition p"
  shows "distinct_keys (PDict p)"
proof -
  from assms have keys: "map fst p = [lit ''text'', lit ''document_name'', lit ''page_number'']"
    and vals: "is_str (snd (p ! 0))" "is_str (snd (p ! 1))" "int_or_none (snd (p ! 2))"
    by (simp_all add: is_proposition_def)
  from keys obtain x y z where p: "p = [x, y, z]"
    by (auto simp: map_eq_Cons_conv)
  have "distinct (map fst p)"
    unfolding keys by (simp add: lit_def)
  moreover have "distinct_keys (snd x)" "distinct_keys (snd y)" "distinct_keys (snd z)"
    using vals by (simp_all add: p atom_distinct_keys)
  then have "distinct_keys_pairs p"
    by (cases x, cases y, cases z) (simp add: p)
  ultimately show ?thesis by simp
qed

lemma propositions_distinct_keys:
  "list_all is_proposition props \<Longrightarrow> distinct_keys_items (map PDict props)"
  by (induction props) (simp_all add: proposition_distinct_keys del: distinct_keys.simps)

lemma storable_items_map: "list_all (\<lambda>p. storable (PDict p)) props \<Longrightarrow> storable_items (map PDict props)"
  by (induction props) simp_all

subsection \<open>The round trip through the processed file\<close>

lemma replicate_indent:
  "replicate 4 x = [x, x, x, x]" "replicate 8 x = [x, x, x, x, x, x, x, x]"
  by (simp_all add: eval_nat_numeral)

text \<open>
  C4, as amended. For every list of proposition objects whose strings hold no surrogate
  and whose page numbers have at most 4300 digits, the ingester's
  \<^verbatim>\<open>json.dump(all_propositions, f, ensure_ascii=False, indent=4)\<close> into a UTF-8 file
  ends without an exception, on either line separator, and the indexer's
  \<^verbatim>\<open>json.load\<close> of that file gives the list of the same objects.
\<close>

theorem propositions_round_trip:
  assumes "linesep = [10] \<or> linesep = [13, 10]"
    and "list_all is_proposition props"
    and "list_all (\<lambda>p. storable (PDict p)) props"
  shows "\<exists>bytes. save_json linesep props = Done bytes
           \<and> load_json bytes = Some (json_objects props)"
  unfolding json_objects_def
  using assms(1)
proof (rule json_file_round_trip)
  show "storable (PList (map PDict props))"
    using storable_items_map [OF assms(3)] by simp
  show "distinct_keys (PList (map PDict props))"
    using propositions_distinct_keys [OF assms(2)] by simp
qed

theorem propositions_round_trip_witness:
  "\<exists>bytes. save_json [13, 10] example_propositions = Done bytes
     \<and> load_json bytes = Some (json_objects example_propositions)"
  using propositions_round_trip [of "[13, 10]" example_propositions]
  by (simp add: example_propositions_def is_proposition_def is_str_def int_or_none_def
      lit_def encodable_def int_max_str_digits_def str_nat.simps)

lemma int_page_is_proposition:
  "list_all is_proposition
     [[(lit ''text'', PStr a), (lit ''document_name'', PStr b), (lit ''page_number'', PInt i)]]"
  by (simp add: is_proposition_def is_str_def int_or_none_def)

lemma surrogate_unsaved:
  "list_all is_proposition surrogate_propositions
   \<and> save_json [10] surrogate_propositions = Raised"
  by (simp add: surrogate_propositions_def is_proposition_def save_json_def json_dumps_def
      encode_basestring_def escape_char_def newline_indent_def lit_def write_newlines_def
      utf8_char_def int_repr_def int_max_str_digits_def str_nat.simps is_str_def
      int_or_none_def replicate_indent)

lemma str_nat_times_10: "0 < n \<Longrightarrow> str_nat (10 * n) = str_nat n @ [48]"
  by (subst str_nat.simps) simp

lemma length_str_nat_power: "length (str_nat (10 ^ k)) = Suc k"
proof (induction k)
  case 0
  show ?case by (subst str_nat.simps) simp
next
  case (Suc k)
  have "str_nat (10 ^ Suc k) = str_nat (10 ^ k) @ [48]"
    using str_nat_times_10 [of "10 ^ k"] by simp
  with Suc show ?case by simp
qed

lemma int_repr_power:
  assumes "int_max_str_digits < Suc k"
  shows "int_repr (10 ^ k) = Raised"
proof -
  have nn: "(0::int) \<le> 10 ^ k" by (rule zero_le_power) simp
  have "nat \<bar>10 ^ k :: int\<bar> = nat (10 ^ k)"
    by (simp only: abs_of_nonneg [OF nn])
  also have "\<dots> = nat 10 ^ k" by (rule nat_power_eq) simp
  also have "nat 10 = (10::nat)" by simp
  finally have "length (str_nat (nat \<bar>10 ^ k :: int\<bar>)) = Suc k"
    by (simp only: length_str_nat_power)
  with assms show ?thesis
    by (simp add: int_repr_def Let_def)
qed

lemma long_page_unsaved:
  assumes "int_repr i = Raised"
  shows "save_json sep [[(k1, PStr a), (k2, PStr b), (k3, PInt i)]] = Raised"
  using assms by (simp add: save_json_def json_dumps_def)

lemma long_page_raises: "save_json [10] long_page_propositions = Raised"
  unfolding long_page_propositions_def
proof (rule long_page_unsaved)
  have "int_max_str_digits < Suc 4300" by (simp add: int_max_str_digits_def)
  then show "int_repr (10 ^ 4300) = Raised" by (rule int_repr_power)
qed

text \<open>
  C4, as stated, fails. A string with a lone surrogate is a string, and the file that
  should hold it cannot be written: the encoder of the file raises, which
  \<^verbatim>\<open>process_document\<close> catches and prints. The same holds for a page number of 4301
  digits, which \<^verbatim>\<open>json.dump\<close> does not convert.
\<close>

theorem surrogate_counterexample:
  "list_all is_proposition surrogate_propositions
   \<and> save_json [10] surrogate_propositions = Raised
   \<and> list_all is_proposition long_page_propositions
   \<and> save_json [10] long_page_propositions = Raised"
proof -
  have "list_all is_proposition long_page_propositions"
    unfolding long_page_propositions_def by (rule int_page_is_proposition)
  with surrogate_unsaved long_page_raises show ?thesis by blast
qed

end
